theory Spec2Isabelle
  imports Main "HOL-Library.Word" "HOL-Library.Multiset" "HOL-Library.AList"
begin

section \<open>Admission control: setUpWriteCallback and CheckHealth (banyand/stream/write.go)\<close>

text \<open>
  Go's \<open>int\<close> is a 64-bit signed integer. The admission code only compares such
  values and never does arithmetic on them, so they are modelled as \<open>int\<close>.
  \<open>common.Error\<close> is a status together with a message; a nil \<open>*common.Error\<close> is
  \<open>None\<close>.
\<close>

datatype Status = STATUS_SUCCEED | STATUS_DISK_FULL

record Error =
  status :: Status
  msg :: string

definition NewErrorWithStatus :: "Status \<Rightarrow> string \<Rightarrow> Error" where
  "NewErrorWithStatus s m = \<lparr>status = s, msg = m\<rparr>"

text \<open>
  Of \<open>writeCallback\<close> the admission check reads \<open>maxDiskUsagePercent\<close> and the
  path of the schema repository, which it hands to the disk probe.
\<close>

record writeCallback =
  path :: string
  maxDiskUsagePercent :: int

definition setUpWriteCallback :: "string \<Rightarrow> int \<Rightarrow> writeCallback" where
  "setUpWriteCallback p m =
     (let m' = (if m > 100 then 100 else m)
      in \<lparr>path = p, maxDiskUsagePercent = m'\<rparr>)"

text \<open>
  \<open>observability.GetPathUsedPercent\<close> is not part of the sources at hand; it is the
  parameter \<open>GetPathUsedPercent\<close>, a function from the path to the reported percentage.
\<close>

definition CheckHealth :: "(string \<Rightarrow> int) \<Rightarrow> writeCallback \<Rightarrow> Error option" where
  "CheckHealth GetPathUsedPercent w =
     (if maxDiskUsagePercent w < 1
      then Some (NewErrorWithStatus STATUS_DISK_FULL
             ''stream is readonly because \"stream-max-disk-usage-percent\" is 0'')
      else let diskPercent = GetPathUsedPercent (path w)
           in if diskPercent < maxDiskUsagePercent w then None
              else Some (NewErrorWithStatus STATUS_DISK_FULL
                     ''disk usage is too high, stop writing''))"

text \<open>\<open>rejects\<close> reads the outcome: a non-nil error whose status is DISK_FULL.\<close>

definition rejects :: "Error option \<Rightarrow> bool" where
  "rejects r = (case r of None \<Rightarrow> False | Some e \<Rightarrow> status e = STATUS_DISK_FULL)"

section \<open>The scheduler registry (pkg/timestamp, scheduler)\<close>

text \<open>
  \<open>Register\<close>, \<open>Close\<close> and the last step of a task's goroutine each run under the
  scheduler's write lock, so each is one atomic step on the scheduler's state. A clock is
  either the real clock or a mock clock holding its current time; \<open>cron.Schedule\<close> is
  an interface with the single method \<open>Next\<close>, modelled as that function on times.
\<close>

datatype Clock = RealClock | MockClock int

type_synonym Schedule = "int \<Rightarrow> int"
type_synonym SchedulerAction = "int \<Rightarrow> bool"

record task =
  t_name :: string
  t_clock :: Clock
  t_schedule :: Schedule
  t_action :: SchedulerAction

record Scheduler =
  clock :: Clock
  tasks :: "string \<rightharpoonup> task"
  isMock :: bool
  closed :: bool

datatype sched_error = ErrSchedulerClosed | ErrTaskDuplicated string | CronParseError string

definition NewScheduler :: "Clock \<Rightarrow> Scheduler" where
  "NewScheduler c =
     \<lparr>clock = c, tasks = Map.empty,
      isMock = (case c of MockClock _ \<Rightarrow> True | RealClock \<Rightarrow> False),
      closed = False\<rparr>"

text \<open>\<open>Now\<close> of a mock clock is the time it holds; of the real clock, the wall time \<open>wall\<close>.\<close>

definition Now :: "int \<Rightarrow> Clock \<Rightarrow> int" where
  "Now wall c = (case c of MockClock t \<Rightarrow> t | RealClock \<Rightarrow> wall)"

definition newTask :: "string \<Rightarrow> Clock \<Rightarrow> Schedule \<Rightarrow> SchedulerAction \<Rightarrow> task" where
  "newTask name c schedule action =
     \<lparr>t_name = name, t_clock = c, t_schedule = schedule, t_action = action\<rparr>"

text \<open>
  The cron parser is a parameter: \<open>parse options expr\<close> is the schedule or the parser's
  error message. \<open>Register\<close> returns the error, or the scheduler with the task added
  (the Go method returns nil and has mutated the receiver).
\<close>

definition Register ::
  "(nat \<Rightarrow> string \<Rightarrow> string + Schedule) \<Rightarrow> int \<Rightarrow> Scheduler \<Rightarrow>
   string \<Rightarrow> nat \<Rightarrow> string \<Rightarrow> SchedulerAction \<Rightarrow> sched_error + Scheduler" where
  "Register parse wall s name options expr action =
     (if closed s then Inl ErrSchedulerClosed
      else if tasks s name \<noteq> None then Inl (ErrTaskDuplicated name)
      else case parse options expr of
             Inl err \<Rightarrow> Inl (CronParseError err)
           | Inr schedule \<Rightarrow>
               let c = (if isMock s then MockClock (Now wall (clock s)) else clock s);
                   t = newTask name c schedule action
               in Inr (s\<lparr>tasks := (tasks s)(name \<mapsto> t)\<rparr>))"

text \<open>
  The goroutine started by \<open>Register\<close> ends with \<open>delete(s.tasks, name)\<close> under the lock.
\<close>

definition taskExit :: "Scheduler \<Rightarrow> string \<Rightarrow> Scheduler" where
  "taskExit s name = s\<lparr>tasks := (tasks s)(name := None)\<rparr>"

definition Closed :: "Scheduler \<Rightarrow> bool" where
  "Closed s = closed s"

text \<open>\<open>Close\<close> sets the flag and deletes every key it ranges over.\<close>

definition Close :: "Scheduler \<Rightarrow> Scheduler" where
  "Close s = s\<lparr>closed := True, tasks := (\<lambda>k. if k \<in> dom (tasks s) then None else tasks s k)\<rparr>"

text \<open>
  A history of the scheduler is a list of such steps; a failed \<open>Register\<close> leaves the
  state as it was.
\<close>

datatype call =
    CallRegister string nat string SchedulerAction
  | CallClose
  | CallTaskExit string

fun exec :: "(nat \<Rightarrow> string \<Rightarrow> string + Schedule) \<Rightarrow> int \<Rightarrow> Scheduler \<Rightarrow> call \<Rightarrow> Scheduler" where
  "exec parse wall s (CallRegister name options expr action) =
     (case Register parse wall s name options expr action of Inl _ \<Rightarrow> s | Inr s' \<Rightarrow> s')"
| "exec parse wall s CallClose = Close s"
| "exec parse wall s (CallTaskExit name) = taskExit s name"

definition run :: "(nat \<Rightarrow> string \<Rightarrow> string + Schedule) \<Rightarrow> int \<Rightarrow> Scheduler \<Rightarrow> call list \<Rightarrow> Scheduler" where
  "run parse wall s cs = foldl (exec parse wall) s cs"


section \<open>The stream write path (banyand/stream/write.go)\<close>

subsection \<open>Errors\<close>

text \<open>
  The errors \<open>handle\<close> returns, one constructor per \<open>fmt.Errorf\<close> of the source, and
  \<open>Panic\<close> for a Go panic (a nil dereference, an index out of range,
  \<open>logger.Panicf\<close>), which is not an error value: it unwinds \<open>Rev\<close>.
\<close>

datatype error =
    ErrInvalidTimestamp
  | ErrCannotLoadTSDB string
  | ErrCannotCreateSegment
  | ErrCannotCreateTSTable
  | ErrCannotFindStream
  | ErrNoTagFamily
  | ErrMoreTagFamilies
  | ErrCannotMarshalSeries
  | ErrMetadataCrashed nat nat
  | Panic string

fun isPanic :: "error \<Rightarrow> bool" where
  "isPanic (Panic _) = True"
| "isPanic _ = False"

subsection \<open>Messages and schema\<close>

text \<open>
  Go strings and byte slices are both sequences of bytes: \<open>string\<close>. A nil slice or
  pointer is \<open>None\<close> where the code tests for nil. \<open>int64\<close> values (tag integers,
  timestamps in nanoseconds) are only copied and compared, never added, so they are
  \<open>int\<close>; identifiers that are \<open>uint64\<close> hashes are \<open>64 word\<close>.
\<close>

type_synonym bytes = string
type_synonym SeriesID = "64 word"
type_synonym ShardID = "32 word"

datatype TagType =
    TAG_TYPE_UNSPECIFIED
  | TAG_TYPE_STRING
  | TAG_TYPE_INT
  | TAG_TYPE_STRING_ARRAY
  | TAG_TYPE_INT_ARRAY
  | TAG_TYPE_DATA_BINARY

text \<open>\<open>modelv1.TagValue\<close>: the oneof, with its nil-safe getters.\<close>

datatype TagValue =
    TV_Null
  | TV_Str string
  | TV_StrArray "string list"
  | TV_Int int
  | TV_IntArray "int list"
  | TV_BinaryData "bytes option"

fun GetInt :: "TagValue \<Rightarrow> int option" where
  "GetInt (TV_Int v) = Some v"
| "GetInt _ = None"

fun GetStr :: "TagValue \<Rightarrow> string option" where
  "GetStr (TV_Str v) = Some v"
| "GetStr _ = None"

fun GetBinaryData :: "TagValue \<Rightarrow> bytes option" where
  "GetBinaryData (TV_BinaryData v) = v"
| "GetBinaryData _ = None"

fun GetIntArray :: "TagValue \<Rightarrow> int list option" where
  "GetIntArray (TV_IntArray v) = Some v"
| "GetIntArray _ = None"

fun GetStrArray :: "TagValue \<Rightarrow> string list option" where
  "GetStrArray (TV_StrArray v) = Some v"
| "GetStrArray _ = None"

text \<open>
  \<open>pbv1.NullTagValue\<close> and \<open>pbv1.NullTagFamily\<close> are shared sentinel pointers, and the
  code compares pointers with them. A slot of the input is therefore an option: \<open>None\<close> is
  the sentinel, \<open>Some v\<close> a value of the request (which may itself hold the null oneof).
  Dereferencing the sentinel gives the null value.
\<close>

definition NullTagValue :: TagValue where
  "NullTagValue = TV_Null"

definition derefTagValue :: "TagValue option \<Rightarrow> TagValue" where
  "derefTagValue p = (case p of None \<Rightarrow> NullTagValue | Some v \<Rightarrow> v)"

record Metadata =
  md_group :: string
  md_name :: string

text \<open>
  The element's timestamp is represented by the value \<open>AsTime().Local().UnixNano()\<close>
  computes from it.
\<close>

record ElementValue =
  el_timestamp :: int
  el_elementId :: string
  el_tagFamilies :: "TagValue list list"

record WriteRequest =
  wr_metadata :: "Metadata option"
  wr_element :: "ElementValue option"

record InternalWriteRequest =
  shardId :: ShardID
  entityValues :: "TagValue list"
  request :: "WriteRequest option"

record TagSpec =
  ts_name :: string
  ts_type :: TagType
  indexedOnly :: bool

record TagFamilySpec =
  tfs_name :: string
  tfs_tags :: "TagSpec list"

datatype IndexRuleType = TYPE_UNSPECIFIED | TYPE_INVERTED | TYPE_SKIPPING

record IndexRule =
  r_id :: "32 word"
  r_type :: IndexRuleType
  r_analyzer :: string
  r_noSort :: bool

record indexRuleLocators =
  TagFamilyTRule :: "(string \<rightharpoonup> IndexRule) list"
  EntitySet :: "string set"

text \<open>Of a loaded stream the write path reads the schema's tag families and the index schema.\<close>

record stream =
  schemaTagFamilies :: "TagFamilySpec list"
  indexRuleLocators :: indexRuleLocators

subsection \<open>Batches\<close>

datatype ValueType =
    ValueTypeUnknown
  | ValueTypeStr
  | ValueTypeInt64
  | ValueTypeBinaryData
  | ValueTypeStrArr
  | ValueTypeInt64Arr

record tagValue =
  tv_tag :: string
  valueType :: ValueType
  tv_value :: "bytes option"
  valueArr :: "bytes list option"
  indexed :: bool

record tagValues =
  tvs_tag :: string
  tvs_values :: "tagValue list"

record elements =
  timestamps :: "int list"
  elementIDs :: "64 word list"
  seriesIDs :: "SeriesID list"
  tagFamilies :: "tagValues list list"

record FieldKey =
  fk_IndexRuleID :: "32 word"
  fk_Analyzer :: string
  fk_SeriesID :: SeriesID

datatype FieldTerm = IntTerm int | StringTerm string | BytesTerm bytes

record Field =
  f_Key :: FieldKey
  f_Term :: FieldTerm
  f_NoSort :: bool

record Document =
  DocID :: "64 word"
  Fields :: "Field list"
  doc_Timestamp :: int
  doc_EntityValues :: bytes

text \<open>
  Handles of the storage layer (a TSDB, a segment, a table) are compared by identity only;
  they are numbers. The time range of a segment is used through its method \<open>Contains\<close>
  alone and is modelled as that predicate on nanosecond timestamps.
\<close>

type_synonym TSDB = nat
type_synonym Segment = nat
type_synonym TSTable = nat
type_synonym TimeRange = "int \<Rightarrow> bool"

record elementsInTable =
  timeRange :: TimeRange
  tsTable :: TSTable
  et_elements :: elements
  et_docs :: "Document list"

record elementsInGroup =
  tsdb :: TSDB
  tables :: "elementsInTable list"
  segments :: "Segment list"
  eg_docs :: "Document list"
  docIDsAdded :: "64 word set"
  latestTS :: int

text \<open>
  The accumulator \<open>map[string]*elementsInGroup\<close> is an association list with distinct
  keys, new groups at the end.
\<close>

type_synonym groups = "(string \<times> elementsInGroup) list"

subsection \<open>The collaborators\<close>

text \<open>
  What the write path calls outside write.go is a parameter, gathered in \<open>env\<close>: the
  schema repository, the storage layer, the hash and codec helpers and the protobuf decoder.
  A call that can fail returns \<open>None\<close> for its error (\<open>False\<close> where only an error
  comes back). \<open>mapRange\<close> is the order in which \<open>range\<close> walks the accumulator, which
  Go leaves open. Each collaborator answers as a function of its arguments for the time of
  one \<open>Rev\<close> call.
\<close>

record env =
  Check :: "int \<Rightarrow> bool"
  loadTSDB :: "string \<Rightarrow> TSDB option"
  CreateSegmentIfNotExist :: "TSDB \<Rightarrow> int \<Rightarrow> Segment option"
  GetTimeRange :: "Segment \<Rightarrow> TimeRange"
  CreateTSTableIfNotExist :: "Segment \<Rightarrow> ShardID \<Rightarrow> TSTable option"
  loadStream :: "Metadata \<Rightarrow> stream option"
  HashStr :: "string \<Rightarrow> 64 word"
  Marshal :: "string \<Rightarrow> TagValue list \<Rightarrow> (SeriesID \<times> bytes) option"
  Int64ToBytes :: "int \<Rightarrow> bytes"
  Unmarshal :: "bytes \<Rightarrow> InternalWriteRequest option"
  IndexWrite :: "TSTable \<Rightarrow> Document list \<Rightarrow> bool"
  IndexInsert :: "Segment \<Rightarrow> Document list \<Rightarrow> bool"
  mapRange :: "groups \<Rightarrow> groups"

text \<open>The calls \<open>Rev\<close> makes on its collaborators, in order, are its trace.\<close>

datatype LogLevel = LevelWarn | LevelError

datatype op =
    OpLoadTSDB string
  | OpCreateSegmentIfNotExist TSDB int "Segment option"
  | OpCreateTSTableIfNotExist Segment ShardID "TSTable option"
  | OpMustAddElements TSTable elements
  | OpIndexWrite TSTable "Document list"
  | OpIndexInsert Segment "Document list"
  | OpDecRef Segment
  | OpTick TSDB int
  | OpLog LogLevel string


subsection \<open>encodeTagValue and appendField\<close>

text \<open>\<open>generateTagValue\<close> hands out a reset value from the pool.\<close>

definition generateTagValue :: tagValue where
  "generateTagValue =
     \<lparr>tv_tag = [], valueType = ValueTypeUnknown, tv_value = None, valueArr = None,
      indexed = False\<rparr>"

fun encodeTagValue :: "(int \<Rightarrow> bytes) \<Rightarrow> string \<Rightarrow> TagType \<Rightarrow> TagValue \<Rightarrow> error + tagValue" where
  "encodeTagValue i2b name TAG_TYPE_INT tagVal =
     (let tv = generateTagValue\<lparr>tv_tag := name, valueType := ValueTypeInt64\<rparr>
      in case GetInt tagVal of
           Some v \<Rightarrow> Inr (tv\<lparr>tv_value := Some (i2b v)\<rparr>)
         | None \<Rightarrow> Inr tv)"
| "encodeTagValue i2b name TAG_TYPE_STRING tagVal =
     (let tv = generateTagValue\<lparr>tv_tag := name, valueType := ValueTypeStr\<rparr>
      in case GetStr tagVal of
           Some v \<Rightarrow> Inr (tv\<lparr>tv_value := Some v\<rparr>)
         | None \<Rightarrow> Inr tv)"
| "encodeTagValue i2b name TAG_TYPE_DATA_BINARY tagVal =
     (let tv = generateTagValue\<lparr>tv_tag := name, valueType := ValueTypeBinaryData\<rparr>
      in case GetBinaryData tagVal of
           Some v \<Rightarrow> Inr (tv\<lparr>tv_value := Some v\<rparr>)
         | None \<Rightarrow> Inr tv)"
| "encodeTagValue i2b name TAG_TYPE_INT_ARRAY tagVal =
     (let tv = generateTagValue\<lparr>tv_tag := name, valueType := ValueTypeInt64Arr\<rparr>
      in case GetIntArray tagVal of
           None \<Rightarrow> Inr tv
         | Some vs \<Rightarrow> Inr (tv\<lparr>valueArr := Some (map i2b vs)\<rparr>))"
| "encodeTagValue i2b name TAG_TYPE_STRING_ARRAY tagVal =
     (let tv = generateTagValue\<lparr>tv_tag := name, valueType := ValueTypeStrArr\<rparr>
      in case GetStrArray tagVal of
           None \<Rightarrow> Inr tv
         | Some vs \<Rightarrow> Inr (tv\<lparr>valueArr := Some vs\<rparr>))"
| "encodeTagValue i2b name TAG_TYPE_UNSPECIFIED tagVal =
     Inl (Panic ''unsupported tag value type'')"

definition newField :: "FieldKey \<Rightarrow> FieldTerm \<Rightarrow> bool \<Rightarrow> Field" where
  "newField k t noSort = \<lparr>f_Key = k, f_Term = t, f_NoSort = noSort\<rparr>"

fun appendField ::
  "Field list \<Rightarrow> FieldKey \<Rightarrow> TagType \<Rightarrow> TagValue \<Rightarrow> bool \<Rightarrow> error + Field list" where
  "appendField dest fieldKey TAG_TYPE_INT tagVal noSort =
     (case GetInt tagVal of
        None \<Rightarrow> Inr dest
      | Some v \<Rightarrow> Inr (dest @ [newField fieldKey (IntTerm v) noSort]))"
| "appendField dest fieldKey TAG_TYPE_STRING tagVal noSort =
     (case GetStr tagVal of
        None \<Rightarrow> Inr dest
      | Some v \<Rightarrow> Inr (dest @ [newField fieldKey (StringTerm v) noSort]))"
| "appendField dest fieldKey TAG_TYPE_DATA_BINARY tagVal noSort =
     (case GetBinaryData tagVal of
        None \<Rightarrow> Inr dest
      | Some v \<Rightarrow> Inr (dest @ [newField fieldKey (BytesTerm v) noSort]))"
| "appendField dest fieldKey TAG_TYPE_INT_ARRAY tagVal noSort =
     (case GetIntArray tagVal of
        None \<Rightarrow> Inr dest
      | Some vs \<Rightarrow> Inr (dest @ map (\<lambda>v. newField fieldKey (IntTerm v) noSort) vs))"
| "appendField dest fieldKey TAG_TYPE_STRING_ARRAY tagVal noSort =
     (case GetStrArray tagVal of
        None \<Rightarrow> Inr dest
      | Some vs \<Rightarrow> Inr (dest @ map (\<lambda>v. newField fieldKey (StringTerm v) noSort) vs))"
| "appendField dest fieldKey TAG_TYPE_UNSPECIFIED tagVal noSort =
     Inl (Panic ''unsupported tag value type'')"

subsection \<open>processElements\<close>

text \<open>
  The slot \<open>j\<close> of the tag family the request gives (the sentinel when the family is the
  sentinel or has no such tag).
\<close>

definition tagValueAt :: "TagValue list option \<Rightarrow> nat \<Rightarrow> TagValue option" where
  "tagValueAt tagFamily j =
     (case tagFamily of
        None \<Rightarrow> None
      | Some tags \<Rightarrow> if length tags \<le> j then None else Some (tags ! j))"

text \<open>
  The index-rule step of the inner loop (lines 229 to 240): the fields after it, and the
  flag \<open>indexed\<close>.
\<close>

definition indexTag ::
  "(string \<rightharpoonup> IndexRule) \<Rightarrow> SeriesID \<Rightarrow> TagSpec \<Rightarrow> TagValue option \<Rightarrow> Field list \<Rightarrow>
   error + (Field list \<times> bool)" where
  "indexTag tfr sid t tagValue flds =
     (case tfr (ts_name t) of
        None \<Rightarrow> Inr (flds, False)
      | Some r \<Rightarrow>
          (case tagValue of
             None \<Rightarrow> Inr (flds, False)
           | Some v \<Rightarrow>
               if r_type r = TYPE_INVERTED then
                 (case appendField flds
                         \<lparr>fk_IndexRuleID = r_id r, fk_Analyzer = r_analyzer r, fk_SeriesID = sid\<rparr>
                         (ts_type t) v (r_noSort r) of
                    Inl e \<Rightarrow> Inl e
                  | Inr flds' \<Rightarrow> Inr (flds', False))
               else if r_type r = TYPE_SKIPPING then Inr (flds, True)
               else Inr (flds, False)))"

text \<open>The loop over the tag specs of one family, \<open>j\<close> the index of the next spec.\<close>

fun processTags ::
  "(int \<Rightarrow> bytes) \<Rightarrow> (string \<rightharpoonup> IndexRule) \<Rightarrow> string set \<Rightarrow> SeriesID \<Rightarrow>
   TagValue list option \<Rightarrow> nat \<Rightarrow> TagSpec list \<Rightarrow> Field list \<Rightarrow> tagValue list \<Rightarrow>
   error + (Field list \<times> tagValue list)" where
  "processTags i2b tfr es sid tagFamily j [] flds vals = Inr (flds, vals)"
| "processTags i2b tfr es sid tagFamily j (t # rest) flds vals =
     (let tagValue = tagValueAt tagFamily j
      in case indexTag tfr sid t tagValue flds of
           Inl e \<Rightarrow> Inl e
         | Inr (flds', idx) \<Rightarrow>
             if indexedOnly t \<or> ts_name t \<in> es
             then processTags i2b tfr es sid tagFamily (Suc j) rest flds' vals
             else (case encodeTagValue i2b (ts_name t) (ts_type t) (derefTagValue tagValue) of
                     Inl e \<Rightarrow> Inl e
                   | Inr tv \<Rightarrow>
                       processTags i2b tfr es sid tagFamily (Suc j) rest flds'
                         (vals @ [tv\<lparr>indexed := idx\<rparr>])))"

text \<open>
  The tag family the request gives at index \<open>i\<close>, or the sentinel
  \<open>pbv1.NullTagFamily\<close> (here \<open>None\<close>) when it gives fewer families.
\<close>

definition tagFamilyAt :: "TagValue list list \<Rightarrow> nat \<Rightarrow> TagValue list option" where
  "tagFamilyAt reqFamilies i =
     (if length reqFamilies \<le> i then None else Some (reqFamilies ! i))"

text \<open>
  The loop over the schema's tag families, \<open>i\<close> the index of the next family. Indexing
  \<open>TagFamilyTRule\<close> out of range panics in Go.
\<close>

fun processFamilies ::
  "(int \<Rightarrow> bytes) \<Rightarrow> indexRuleLocators \<Rightarrow> SeriesID \<Rightarrow> TagValue list list \<Rightarrow> nat \<Rightarrow>
   TagFamilySpec list \<Rightarrow> Field list \<Rightarrow> tagValues list \<Rightarrow>
   error + (Field list \<times> tagValues list)" where
  "processFamilies i2b loc sid reqFamilies i [] flds tfs = Inr (flds, tfs)"
| "processFamilies i2b loc sid reqFamilies i (tagFamilySpec # rest) flds tfs =
     (let tagFamily = tagFamilyAt reqFamilies i
      in if length (TagFamilyTRule loc) \<le> i then Inl (Panic ''index out of range'')
         else
           let tfr = TagFamilyTRule loc ! i
           in case processTags i2b tfr (EntitySet loc) sid tagFamily 0
                     (tfs_tags tagFamilySpec) flds [] of
                Inl e \<Rightarrow> Inl e
              | Inr (flds', vals) \<Rightarrow>
                  processFamilies i2b loc sid reqFamilies (Suc i) rest flds'
                    (if length vals > 0
                     then tfs @ [\<lparr>tvs_tag = tfs_name tagFamilySpec, tvs_values = vals\<rparr>]
                     else tfs))"

text \<open>
  \<open>processElements\<close> writes into the table \<open>et\<close> and the group \<open>eg\<close> through pointers;
  the model returns both, and the content of the \<open>strings.Builder\<close>. On an error the
  caller drops the accumulator, so only the builder comes back. The write-only local
  \<open>indexedTags\<close> is left out.
\<close>

definition processElements ::
  "env \<Rightarrow> elementsInTable \<Rightarrow> elementsInGroup \<Rightarrow> InternalWriteRequest \<Rightarrow> WriteRequest \<Rightarrow>
   ElementValue \<Rightarrow> string \<Rightarrow> int \<Rightarrow> string \<times> (error + elementsInTable \<times> elementsInGroup)" where
  "processElements env et eg writeEvent req el docIDBuilder ts =
     (let es1 = (et_elements et)\<lparr>timestamps := timestamps (et_elements et) @ [ts]\<rparr>;
          b0 = []
      in case wr_metadata req of
           None \<Rightarrow> (b0, Inl (Panic ''nil pointer dereference''))
         | Some md \<Rightarrow>
      let b1 = b0 @ md_name md;
          b2 = b1 @ ''|'';
          b3 = b2 @ el_elementId el;
          eID = HashStr env b3;
          es2 = es1\<lparr>elementIDs := elementIDs es1 @ [eID]\<rparr>
      in case loadStream env md of
           None \<Rightarrow> (b3, Inl ErrCannotFindStream)
         | Some stm \<Rightarrow>
      let fLen = length (el_tagFamilies el)
      in if fLen < 1 then (b3, Inl ErrNoTagFamily)
         else if fLen > length (schemaTagFamilies stm) then (b3, Inl ErrMoreTagFamilies)
         else case Marshal env (md_name md) (entityValues writeEvent) of
           None \<Rightarrow> (b3, Inl ErrCannotMarshalSeries)
         | Some (seriesID, seriesBuffer) \<Rightarrow>
      let es3 = es2\<lparr>seriesIDs := seriesIDs es2 @ [seriesID]\<rparr>;
          loc = indexRuleLocators stm
      in if length (TagFamilyTRule loc) \<noteq> length (schemaTagFamilies stm)
         then (b3, Inl (ErrMetadataCrashed (length (TagFamilyTRule loc))
                          (length (schemaTagFamilies stm))))
         else case processFamilies (Int64ToBytes env) loc seriesID (el_tagFamilies el) 0
                     (schemaTagFamilies stm) [] [] of
           Inl e \<Rightarrow> (b3, Inl e)
         | Inr (flds, tfs) \<Rightarrow>
      let es4 = es3\<lparr>tagFamilies := tagFamilies es3 @ [tfs]\<rparr>;
          et' = et\<lparr>et_elements := es4,
                   et_docs := et_docs et @
                     [\<lparr>DocID = eID, Fields = flds, doc_Timestamp = ts,
                       doc_EntityValues = []\<rparr>]\<rparr>;
          docID = seriesID;
          eg' = (if docID \<in> docIDsAdded eg then eg
                 else eg\<lparr>eg_docs := eg_docs eg @
                            [\<lparr>DocID = docID, Fields = [], doc_Timestamp = 0,
                              doc_EntityValues = seriesBuffer\<rparr>],
                         docIDsAdded := insert docID (docIDsAdded eg)\<rparr>)
      in (b3, Inr (et', eg')))"

subsection \<open>prepareElementsInGroup and prepareElementsInTable\<close>

definition newElementsInGroup :: "TSDB \<Rightarrow> elementsInGroup" where
  "newElementsInGroup db =
     \<lparr>tsdb = db, tables = [], segments = [], eg_docs = [], docIDsAdded = {}, latestTS = 0\<rparr>"

text \<open>
  The group comes back with the change to \<open>latestTS\<close>, and the accumulator holds it
  under its name (in Go both are the same object).
\<close>

definition prepareElementsInGroup ::
  "env \<Rightarrow> groups \<Rightarrow> WriteRequest \<Rightarrow> int \<Rightarrow> op list \<times> (error + groups \<times> string \<times> elementsInGroup)" where
  "prepareElementsInGroup env dst req ts =
     (case wr_metadata req of
        None \<Rightarrow> ([], Inl (Panic ''nil pointer dereference''))
      | Some md \<Rightarrow>
          let gn = md_group md
          in case loadTSDB env gn of
               None \<Rightarrow> ([OpLoadTSDB gn], Inl (ErrCannotLoadTSDB gn))
             | Some db \<Rightarrow>
                 let eg = (case map_of dst gn of
                             Some eg \<Rightarrow> eg
                           | None \<Rightarrow> newElementsInGroup db);
                     eg' = (if latestTS eg < ts then eg\<lparr>latestTS := ts\<rparr> else eg)
                 in ([OpLoadTSDB gn], Inr (AList.update gn eg' dst, gn, eg')))"

fun findIndex :: "('a \<Rightarrow> bool) \<Rightarrow> 'a list \<Rightarrow> nat option" where
  "findIndex P [] = None"
| "findIndex P (x # xs) = (if P x then Some 0 else map_option Suc (findIndex P xs))"

definition emptyElements :: elements where
  "emptyElements = \<lparr>timestamps = [], elementIDs = [], seriesIDs = [], tagFamilies = []\<rparr>"

text \<open>
  The segment for \<open>ts\<close>: one the group already holds, or one acquired from the TSDB and
  appended to the group's segments.
\<close>

definition acquireSegment ::
  "env \<Rightarrow> elementsInGroup \<Rightarrow> int \<Rightarrow> op list \<times> (error + elementsInGroup \<times> Segment)" where
  "acquireSegment env eg ts =
     (case find (\<lambda>seg. GetTimeRange env seg ts) (segments eg) of
        Some seg \<Rightarrow> ([], Inr (eg, seg))
      | None \<Rightarrow>
          (case CreateSegmentIfNotExist env (tsdb eg) ts of
             None \<Rightarrow> ([OpCreateSegmentIfNotExist (tsdb eg) ts None], Inl ErrCannotCreateSegment)
           | Some seg \<Rightarrow>
               ([OpCreateSegmentIfNotExist (tsdb eg) ts (Some seg)],
                Inr (eg\<lparr>segments := segments eg @ [seg]\<rparr>, seg))))"

text \<open>The table comes back as its index in the group's tables.\<close>

definition prepareElementsInTable ::
  "env \<Rightarrow> elementsInGroup \<Rightarrow> ShardID \<Rightarrow> int \<Rightarrow> op list \<times> (error + elementsInGroup \<times> nat)" where
  "prepareElementsInTable env eg shardID ts =
     (case findIndex (\<lambda>et. timeRange et ts) (tables eg) of
        Some i \<Rightarrow> ([], Inr (eg, i))
      | None \<Rightarrow>
          (case acquireSegment env eg ts of
             (ops, Inl e) \<Rightarrow> (ops, Inl e)
           | (ops, Inr (eg1, segment)) \<Rightarrow>
               (case CreateTSTableIfNotExist env segment shardID of
                  None \<Rightarrow>
                    (ops @ [OpCreateTSTableIfNotExist segment shardID None],
                     Inl ErrCannotCreateTSTable)
                | Some tstb \<Rightarrow>
                    let et = \<lparr>timeRange = GetTimeRange env segment, tsTable = tstb,
                              et_elements = emptyElements, et_docs = []\<rparr>
                    in (ops @ [OpCreateTSTableIfNotExist segment shardID (Some tstb)],
                        Inr (eg1\<lparr>tables := tables eg1 @ [et]\<rparr>, length (tables eg1))))))"

subsection \<open>handle\<close>

text \<open>
  \<open>handle\<close> returns the trace, the builder's content and the accumulator or the error.
  Dereferencing a nil \<open>Request\<close> or \<open>Element\<close> panics on the first line.
\<close>

definition handle ::
  "env \<Rightarrow> groups \<Rightarrow> InternalWriteRequest \<Rightarrow> string \<Rightarrow> op list \<times> string \<times> (error + groups)" where
  "handle env dst writeEvent docIDBuilder =
     (case request writeEvent of
        None \<Rightarrow> ([], docIDBuilder, Inl (Panic ''nil pointer dereference''))
      | Some req \<Rightarrow>
     (case wr_element req of
        None \<Rightarrow> ([], docIDBuilder, Inl (Panic ''nil pointer dereference''))
      | Some el \<Rightarrow>
     let ts = el_timestamp el
     in if \<not> Check env ts then ([], docIDBuilder, Inl ErrInvalidTimestamp)
        else
     (case prepareElementsInGroup env dst req ts of
        (ops1, Inl e) \<Rightarrow> (ops1, docIDBuilder, Inl e)
      | (ops1, Inr (dst1, gn, eg)) \<Rightarrow>
     (case prepareElementsInTable env eg (shardId writeEvent) ts of
        (ops2, Inl e) \<Rightarrow> (ops1 @ ops2, docIDBuilder, Inl e)
      | (ops2, Inr (eg2, i)) \<Rightarrow>
     (case processElements env (tables eg2 ! i) eg2 writeEvent req el docIDBuilder ts of
        (b, Inl e) \<Rightarrow> (ops1 @ ops2, b, Inl e)
      | (b, Inr (et', eg3)) \<Rightarrow>
          (ops1 @ ops2, b,
           Inr (AList.update gn (eg3\<lparr>tables := (tables eg3)[i := et']\<rparr>) dst1)))))))"

subsection \<open>Rev\<close>

datatype any = EvWriteRequest InternalWriteRequest | EvBytes bytes | EvOther

datatype messageData = DataList "any list" | DataOther

text \<open>
  The type switch at the head of the loop body: the write event, or the line logged before
  \<open>continue\<close>.
\<close>

definition decodeEvent :: "env \<Rightarrow> any \<Rightarrow> op + InternalWriteRequest" where
  "decodeEvent env e =
     (case e of
        EvWriteRequest writeEvent \<Rightarrow> Inr writeEvent
      | EvBytes raw \<Rightarrow>
          (case Unmarshal env raw of
             None \<Rightarrow> Inl (OpLog LevelError ''fail to unmarshal event'')
           | Some writeEvent \<Rightarrow> Inr writeEvent)
      | EvOther \<Rightarrow> Inl (OpLog LevelWarn ''invalid event data type''))"

text \<open>
  The first loop of \<open>Rev\<close>, from the accumulator and builder it has reached; it returns
  the trace, the builder and the accumulator at its end. A panic ends the call; an error
  of \<open>handle\<close> is logged and the accumulator starts again from empty.
\<close>

fun revLoop :: "env \<Rightarrow> any list \<Rightarrow> groups \<Rightarrow> string \<Rightarrow> op list \<times> string \<times> (error + groups)" where
  "revLoop env [] groups builder = ([], builder, Inr groups)"
| "revLoop env (e # events) groups builder =
     (case decodeEvent env e of
        Inl logged \<Rightarrow>
          (let (ops, b, r) = revLoop env events groups builder in (logged # ops, b, r))
      | Inr writeEvent \<Rightarrow>
          (case handle env groups writeEvent builder of
             (ops1, b1, Inr groups') \<Rightarrow>
               (let (ops, b, r) = revLoop env events groups' b1 in (ops1 @ ops, b, r))
           | (ops1, b1, Inl err) \<Rightarrow>
               if isPanic err then (ops1, b1, Inl err)
               else (let (ops, b, r) = revLoop env events [] b1
                     in (ops1 @ OpLog LevelError ''cannot handle write event'' # ops, b, r))))"

definition flushTable :: "env \<Rightarrow> elementsInTable \<Rightarrow> op list" where
  "flushTable env es =
     OpMustAddElements (tsTable es) (et_elements es) #
     (if length (et_docs es) > 0
      then OpIndexWrite (tsTable es) (et_docs es) #
           (if IndexWrite env (tsTable es) (et_docs es) then []
            else [OpLog LevelError ''cannot write element index''])
      else [])"

definition flushSegment :: "env \<Rightarrow> Document list \<Rightarrow> Segment \<Rightarrow> op list" where
  "flushSegment env docs segment =
     OpIndexInsert segment docs #
     (if IndexInsert env segment docs then [] else [OpLog LevelError ''cannot write index'']) @
     [OpDecRef segment]"

definition flushGroup :: "env \<Rightarrow> elementsInGroup \<Rightarrow> op list" where
  "flushGroup env g =
     concat (map (flushTable env) (tables g)) @
     (if length (eg_docs g) > 0
      then concat (map (flushSegment env (eg_docs g)) (segments g))
      else []) @
     [OpTick (tsdb g) (latestTS g)]"

definition flushGroups :: "env \<Rightarrow> groups \<Rightarrow> op list" where
  "flushGroups env groups = concat (map (\<lambda>(gn, g). flushGroup env g) (mapRange env groups))"

text \<open>
  \<open>Rev\<close> returns nothing to its caller. The model returns the trace and how the call
  ended: \<open>Inr None\<close> when it returned before the accumulator was made, \<open>Inr (Some groups)\<close>
  when it returned after flushing the accumulator \<open>groups\<close>, \<open>Inl\<close> when it panicked.
  The pool of element batches is memory management and is left out.
\<close>

definition Rev :: "env \<Rightarrow> messageData \<Rightarrow> op list \<times> (error + groups option)" where
  "Rev env message =
     (case message of
        DataOther \<Rightarrow> ([OpLog LevelWarn ''invalid event data type''], Inr None)
      | DataList events \<Rightarrow>
          if length events < 1 then ([OpLog LevelWarn ''empty event''], Inr None)
          else (case revLoop env events [] [] of
                  (ops, b, Inl err) \<Rightarrow> (ops, Inl err)
                | (ops, b, Inr groups) \<Rightarrow>
                    (ops @ flushGroups env groups, Inr (Some groups))))"


section \<open>Observations on traces and accumulators\<close>

text \<open>How often a trace acquires a segment, and how often it releases it.\<close>

fun isAcquire :: "Segment \<Rightarrow> op \<Rightarrow> bool" where
  "isAcquire seg (OpCreateSegmentIfNotExist db ts r) = (r = Some seg)"
| "isAcquire seg _ = False"

definition acquired :: "Segment \<Rightarrow> op list \<Rightarrow> nat" where
  "acquired seg ops = length (filter (isAcquire seg) ops)"

definition released :: "Segment \<Rightarrow> op list \<Rightarrow> nat" where
  "released seg ops = length (filter (\<lambda>x. x = OpDecRef seg) ops)"

text \<open>How many references to a segment the groups of an accumulator hold.\<close>

definition held :: "Segment \<Rightarrow> groups \<Rightarrow> nat" where
  "held seg G = sum_list (map (\<lambda>(gn, eg). count_list (segments eg) seg) G)"

text \<open>The line \<open>Rev\<close> logs when \<open>handle\<close> has returned an error.\<close>

definition handleErrorLogged :: "op list \<Rightarrow> bool" where
  "handleErrorLogged ops \<longleftrightarrow> OpLog LevelError ''cannot handle write event'' \<in> set ops"

text \<open>
  How many series documents with the identifier \<open>sid\<close> a trace hands to
  \<open>IndexDB().Insert\<close>, over all calls.
\<close>

fun insertsOf :: "SeriesID \<Rightarrow> op \<Rightarrow> nat" where
  "insertsOf sid (OpIndexInsert seg docs) = length (filter (\<lambda>d. DocID d = sid) docs)"
| "insertsOf sid _ = 0"

definition seriesInserts :: "SeriesID \<Rightarrow> op list \<Rightarrow> nat" where
  "seriesInserts sid ops = sum_list (map (insertsOf sid) ops)"

fun isLog :: "op \<Rightarrow> bool" where
  "isLog (OpLog l m) = True"
| "isLog _ = False"

text \<open>The calls \<open>handle\<close> makes: loading the TSDB, acquiring a segment, opening a table.\<close>

fun isPrepare :: "op \<Rightarrow> bool" where
  "isPrepare (OpLoadTSDB gn) = True"
| "isPrepare (OpCreateSegmentIfNotExist db ts r) = True"
| "isPrepare (OpCreateTSTableIfNotExist seg shard r) = True"
| "isPrepare _ = False"

text \<open>The ticks of a trace, as pairs of the TSDB and the timestamp passed.\<close>

fun ticksOf :: "op list \<Rightarrow> (TSDB \<times> int) list" where
  "ticksOf [] = []"
| "ticksOf (OpTick db ts # ops) = (db, ts) # ticksOf ops"
| "ticksOf (x # ops) = ticksOf ops"

text \<open>The timestamps of the events a group has accumulated, over all its tables.\<close>

definition groupTimestamps :: "elementsInGroup \<Rightarrow> int list" where
  "groupTimestamps eg = concat (map (\<lambda>et. timestamps (et_elements et)) (tables eg))"

text \<open>
  For the accumulator \<open>Rev\<close> ended with: each group's name and the largest timestamp
  among the events accumulated into it.
\<close>

definition accumulatedMax :: "error + groups option \<Rightarrow> (string \<times> int) list" where
  "accumulatedMax r =
     (case r of
        Inr (Some G) \<Rightarrow> map (\<lambda>(gn, eg). (gn, Max (set (groupTimestamps eg)))) G
      | _ \<Rightarrow> [])"

text \<open>
  What holds of every group of the accumulator between two events: the pending series
  documents carry distinct identifiers, which are the ones recorded in \<open>docIDsAdded\<close>,
  and \<open>latestTS\<close> is the largest of 0 and the accumulated timestamps.
\<close>

definition egInv :: "elementsInGroup \<Rightarrow> bool" where
  "egInv eg \<longleftrightarrow>
     distinct (map DocID (eg_docs eg)) \<and>
     set (map DocID (eg_docs eg)) = docIDsAdded eg \<and>
     latestTS eg = Max (insert 0 (set (groupTimestamps eg)))"


definition groupsInv :: "groups \<Rightarrow> bool" where
  "groupsInv G \<longleftrightarrow> distinct (map fst G) \<and> list_all (\<lambda>(gn, eg). egInv eg) G"

section \<open>What the stored tag values of an element must be\<close>

text \<open>
  The following definitions state, from the schema alone, what an accepted element stores;
  they are compared with what \<open>processElements\<close> computes. The value type a tag type is
  stored under:
\<close>

fun valueTypeOf :: "TagType \<Rightarrow> ValueType" where
  "valueTypeOf TAG_TYPE_INT = ValueTypeInt64"
| "valueTypeOf TAG_TYPE_STRING = ValueTypeStr"
| "valueTypeOf TAG_TYPE_DATA_BINARY = ValueTypeBinaryData"
| "valueTypeOf TAG_TYPE_INT_ARRAY = ValueTypeInt64Arr"
| "valueTypeOf TAG_TYPE_STRING_ARRAY = ValueTypeStrArr"
| "valueTypeOf TAG_TYPE_UNSPECIFIED = ValueTypeUnknown"

text \<open>A tag spec is stored when it is neither index-only nor in the entity set.\<close>

definition isStored :: "string set \<Rightarrow> TagSpec \<Rightarrow> bool" where
  "isStored es t \<longleftrightarrow> \<not> indexedOnly t \<and> ts_name t \<notin> es"

text \<open>The stored tag specs of a family, each with its index in the family.\<close>

definition storedSlots :: "string set \<Rightarrow> TagSpec list \<Rightarrow> (nat \<times> TagSpec) list" where
  "storedSlots es tags = filter (\<lambda>(j, t). isStored es t) (zip [0..<length tags] tags)"

text \<open>The families of the schema with at least one stored tag spec, each with its index.\<close>

definition storedFamilies :: "string set \<Rightarrow> TagFamilySpec list \<Rightarrow> (nat \<times> TagFamilySpec) list" where
  "storedFamilies es schema =
     filter (\<lambda>(i, spec). storedSlots es (tfs_tags spec) \<noteq> []) (zip [0..<length schema] schema)"

text \<open>
  The stored value \<open>tv\<close> fills the slot of tag spec \<open>t\<close> at index \<open>j\<close>: it is the
  encoding (up to the flag \<open>indexed\<close>) of what the request gives at \<open>j\<close>, under the
  spec's name and value type; and when the request gives nothing there, it is the null
  value of that type, with nil bytes.
\<close>

definition slotOK ::
  "(int \<Rightarrow> bytes) \<Rightarrow> TagValue list option \<Rightarrow> nat \<times> TagSpec \<Rightarrow> tagValue \<Rightarrow> bool" where
  "slotOK i2b tagFamily slot tv \<longleftrightarrow>
     (case slot of (j, t) \<Rightarrow>
        encodeTagValue i2b (ts_name t) (ts_type t) (derefTagValue (tagValueAt tagFamily j))
          = Inr (tv\<lparr>indexed := False\<rparr>)
        \<and> tv_tag tv = ts_name t
        \<and> valueType tv = valueTypeOf (ts_type t)
        \<and> (tagValueAt tagFamily j = None \<longrightarrow>
             tv = \<lparr>tv_tag = ts_name t, valueType = valueTypeOf (ts_type t), tv_value = None,
                   valueArr = None, indexed = False\<rparr>))"

text \<open>
  The materialised family \<open>tf\<close> is that of the schema's family \<open>spec\<close> at index \<open>i\<close>:
  it has the family's name and one value for each stored tag spec, in order, so that its
  value count is the family's tag count less its entity and index-only tags.
\<close>

definition familyOK ::
  "(int \<Rightarrow> bytes) \<Rightarrow> string set \<Rightarrow> TagValue list list \<Rightarrow> nat \<times> TagFamilySpec \<Rightarrow> tagValues \<Rightarrow>
   bool" where
  "familyOK i2b es reqFamilies fam tf \<longleftrightarrow>
     (case fam of (i, spec) \<Rightarrow>
        tvs_tag tf = tfs_name spec
        \<and> list_all2 (slotOK i2b (tagFamilyAt reqFamilies i)) (storedSlots es (tfs_tags spec))
             (tvs_values tf)
        \<and> length (tvs_values tf) =
            length (tfs_tags spec)
              - length (filter (\<lambda>t. indexedOnly t \<or> ts_name t \<in> es) (tfs_tags spec)))"

section \<open>A concrete stream and concrete collaborators\<close>

text \<open>
  One stream \<open>svc\<close> in the groups \<open>g\<close> and \<open>h\<close>. Its schema has the family
  \<open>searchable\<close> (an inverted-indexed string, the entity tag, a skipping-indexed integer
  and an index-only string) and the family \<open>data\<close> (a binary tag). Segments are one
  second wide. Timestamps must be whole milliseconds and not before 1970.
\<close>

definition stream0 :: stream where
  "stream0 =
     \<lparr>schemaTagFamilies =
        [\<lparr>tfs_name = ''searchable'',
          tfs_tags =
            [\<lparr>ts_name = ''trace_id'', ts_type = TAG_TYPE_STRING, indexedOnly = False\<rparr>,
             \<lparr>ts_name = ''svc'', ts_type = TAG_TYPE_STRING, indexedOnly = False\<rparr>,
             \<lparr>ts_name = ''dur'', ts_type = TAG_TYPE_INT, indexedOnly = False\<rparr>,
             \<lparr>ts_name = ''ext'', ts_type = TAG_TYPE_STRING, indexedOnly = True\<rparr>]\<rparr>,
         \<lparr>tfs_name = ''data'',
          tfs_tags =
            [\<lparr>ts_name = ''payload'', ts_type = TAG_TYPE_DATA_BINARY, indexedOnly = False\<rparr>]\<rparr>],
      indexRuleLocators =
        \<lparr>TagFamilyTRule =
           [[''trace_id'' \<mapsto> \<lparr>r_id = 1, r_type = TYPE_INVERTED, r_analyzer = [], r_noSort = False\<rparr>,
             ''dur'' \<mapsto> \<lparr>r_id = 2, r_type = TYPE_SKIPPING, r_analyzer = [], r_noSort = False\<rparr>],
            Map.empty],
         EntitySet = {''svc''}\<rparr>\<rparr>"

definition mkEvent :: "string \<Rightarrow> string \<Rightarrow> int \<Rightarrow> string \<Rightarrow> TagValue list list \<Rightarrow> InternalWriteRequest" where
  "mkEvent gn eid ts entity fams =
     \<lparr>shardId = 3, entityValues = [TV_Str entity],
      request = Some \<lparr>wr_metadata = Some \<lparr>md_group = gn, md_name = ''svc''\<rparr>,
                      wr_element = Some \<lparr>el_timestamp = ts, el_elementId = eid,
                                         el_tagFamilies = fams\<rparr>\<rparr>\<rparr>"

definition env0 :: env where
  "env0 =
     \<lparr>Check = (\<lambda>ts. 0 \<le> ts \<and> ts mod 1000000 = 0),
      loadTSDB = (\<lambda>gn. if gn = ''g'' then Some 1 else if gn = ''h'' then Some 2 else None),
      CreateSegmentIfNotExist = (\<lambda>db ts. Some (nat (ts div 1000000000 + 100))),
      GetTimeRange = (\<lambda>seg ts. ts div 1000000000 + 100 = int seg),
      CreateTSTableIfNotExist = (\<lambda>seg shard. Some (10 * seg + unat shard)),
      loadStream = (\<lambda>md. if md_name md = ''svc'' then Some stream0 else None),
      HashStr = (\<lambda>s. of_nat (length s)),
      Marshal = (\<lambda>subject evs.
                  case evs of
                    [TV_Str s] \<Rightarrow> Some (of_nat (length s), subject @ s)
                  | _ \<Rightarrow> None),
      Int64ToBytes = (\<lambda>i. ''int64''),
      Unmarshal = (\<lambda>b. if b = ''e1''
                        then Some (mkEvent ''g'' ''e1'' 1000000 ''a'' [[TV_Str ''t1'']])
                        else None),
      IndexWrite = (\<lambda>t docs. True),
      IndexInsert = (\<lambda>seg docs. True),
      mapRange = rev\<rparr>"

definition parse0 :: "nat \<Rightarrow> string \<Rightarrow> string + Schedule" where
  "parse0 options expr =
     (if expr = ''@every 1s'' then Inr (\<lambda>t. t + 1000000000) else Inl ''bad expression'')"

text \<open>The same collaborators with a validation that also admits times before 1970.\<close>

definition envLax :: env where
  "envLax = env0\<lparr>Check := (\<lambda>ts. ts mod 1000000 = 0)\<rparr>"

text \<open>
  Events for the stream: a complete one, one a second later, one before 1970, and one
  without tag families, which \<open>processElements\<close> refuses.
\<close>

definition evOK :: InternalWriteRequest where
  "evOK = mkEvent ''g'' ''e1'' 1000000 ''a'' [[TV_Str ''t1'', TV_Str ''a'', TV_Int 5]]"

definition evLater :: InternalWriteRequest where
  "evLater = mkEvent ''g'' ''e2'' 2000000000 ''a'' [[TV_Str ''t2'']]"

definition evBefore1970 :: InternalWriteRequest where
  "evBefore1970 = mkEvent ''g'' ''e3'' (- 1000000) ''a'' [[TV_Str ''t3'']]"

definition evNoFamily :: InternalWriteRequest where
  "evNoFamily = mkEvent ''g'' ''e4'' 3000000 ''a'' []"

text \<open>The parts of the complete event, and the table and group it is first written to.\<close>

definition mdSvc :: Metadata where
  "mdSvc = \<lparr>md_group = ''g'', md_name = ''svc''\<rparr>"

definition elOK :: ElementValue where
  "elOK = \<lparr>el_timestamp = 1000000, el_elementId = ''e1'',
           el_tagFamilies = [[TV_Str ''t1'', TV_Str ''a'', TV_Int 5]]\<rparr>"

definition reqOK :: WriteRequest where
  "reqOK = \<lparr>wr_metadata = Some mdSvc, wr_element = Some elOK\<rparr>"

definition exTable :: elementsInTable where
  "exTable = \<lparr>timeRange = GetTimeRange env0 100, tsTable = 1003, et_elements = emptyElements,
          et_docs = []\<rparr>"

definition exGroup :: elementsInGroup where
  "exGroup = (newElementsInGroup 1)\<lparr>tables := [exTable], segments := [100], latestTS := 1000000\<rparr>"

lemmas write_path_defs =
  Rev_def decodeEvent_def handle_def prepareElementsInGroup_def prepareElementsInTable_def
  acquireSegment_def processElements_def newElementsInGroup_def emptyElements_def
  tagValueAt_def tagFamilyAt_def indexTag_def derefTagValue_def NullTagValue_def
  generateTagValue_def
  newField_def flushGroups_def flushGroup_def flushTable_def flushSegment_def Let_def

lemmas concrete_defs =
  env0_def stream0_def mkEvent_def evOK_def evLater_def evBefore1970_def evNoFamily_def
  mdSvc_def elOK_def reqOK_def exTable_def exGroup_def envLax_def

section \<open>Verification: admission control\<close>

text \<open>
  Claim C3. With \<open>maxDiskUsagePercent = 0\<close> the check returns DiskFull; a configuration
  of 101 gives the same callback, hence the same answers, as 100; and for a probe that
  reports a percentage \<open>p \<ge> 0\<close> and the threshold \<open>t\<close> kept by the set-up
  (\<open>min m 100\<close>), the check returns DiskFull if and only if \<open>p \<ge> t\<close> and nil
  otherwise.
\<close>

theorem CheckHealth_admission:
  assumes "0 \<le> probe pth"
  shows "rejects (CheckHealth probe (setUpWriteCallback pth 0))
       \<and> setUpWriteCallback pth 101 = setUpWriteCallback pth 100
       \<and> CheckHealth probe (setUpWriteCallback pth 101)
           = CheckHealth probe (setUpWriteCallback pth 100)
       \<and> maxDiskUsagePercent (setUpWriteCallback pth m) = min m 100
       \<and> (rejects (CheckHealth probe (setUpWriteCallback pth m))
            \<longleftrightarrow> probe pth \<ge> maxDiskUsagePercent (setUpWriteCallback pth m))
       \<and> (CheckHealth probe (setUpWriteCallback pth m) = None
            \<longleftrightarrow> probe pth < maxDiskUsagePercent (setUpWriteCallback pth m))"
  using assms
  by (auto simp: CheckHealth_def setUpWriteCallback_def rejects_def NewErrorWithStatus_def
                 Let_def)

theorem CheckHealth_admission_witness:
  "rejects (CheckHealth (\<lambda>_. 95) (setUpWriteCallback ''/data'' 95))
   \<and> CheckHealth (\<lambda>_. 94) (setUpWriteCallback ''/data'' 95) = None
   \<and> rejects (CheckHealth (\<lambda>_. 100) (setUpWriteCallback ''/data'' 101))
   \<and> CheckHealth (\<lambda>_. 99) (setUpWriteCallback ''/data'' 101) = None
   \<and> rejects (CheckHealth (\<lambda>_. 0) (setUpWriteCallback ''/data'' 0))"
  using CheckHealth_admission [of "\<lambda>_. 95" "''/data''" 95]
        CheckHealth_admission [of "\<lambda>_. 94" "''/data''" 95]
        CheckHealth_admission [of "\<lambda>_. 100" "''/data''" 101]
        CheckHealth_admission [of "\<lambda>_. 99" "''/data''" 101]
        CheckHealth_admission [of "\<lambda>_. 0" "''/data''" 0]
  by (simp add: setUpWriteCallback_def)

section \<open>Verification: the scheduler registry\<close>

lemma Close_tasks: "tasks (Close s) = Map.empty"
  by (auto simp: Close_def)

lemma Close_closed: "closed (Close s)"
  by (simp add: Close_def)

lemma exec_closed: "closed s \<Longrightarrow> closed (exec parse wall s c)"
  by (cases c) (auto simp: Register_def Close_def taskExit_def split: sum.splits)

lemma run_closed: "closed s \<Longrightarrow> closed (run parse wall s cs)"
  unfolding run_def by (induction cs arbitrary: s) (auto simp: exec_closed)

text \<open>A closed scheduler holds no task: \<open>Close\<close> empties the registry and nothing refills it.\<close>

lemma exec_closed_empty:
  "(closed s \<longrightarrow> tasks s = Map.empty) \<Longrightarrow>
   closed (exec parse wall s c) \<longrightarrow> tasks (exec parse wall s c) = Map.empty"
  by (cases c)
     (auto simp: Register_def Close_def taskExit_def Let_def split: sum.splits if_splits)

lemma run_closed_empty:
  "(closed s \<longrightarrow> tasks s = Map.empty) \<Longrightarrow>
   closed (run parse wall s cs) \<longrightarrow> tasks (run parse wall s cs) = Map.empty"
  unfolding run_def
proof (induction cs arbitrary: s)
  case Nil
  then show ?case by simp
next
  case (Cons c cs)
  have "closed (exec parse wall s c) \<longrightarrow> tasks (exec parse wall s c) = Map.empty"
    using Cons.prems by (rule exec_closed_empty)
  from Cons.IH [OF this] show ?case by simp
qed

text \<open>
  Claim C7. In every state \<open>s\<close> a scheduler reaches from \<open>NewScheduler\<close> by calls of
  \<open>Register\<close> and \<open>Close\<close> and exits of tasks: \<open>Register\<close> under a name that is
  registered returns the Duplicate error for that name; after \<open>Close\<close>, whatever calls
  follow, \<open>Register\<close> returns the Closed error; a \<open>Register\<close> that succeeds has added a
  task of that name to the registry and changed nothing else in it; and the registry is
  empty when \<open>Close\<close> returns.
\<close>

theorem Register_Duplicate_Closed:
  fixes parse wall c0 cs
  defines "s \<equiv> run parse wall (NewScheduler c0) cs"
  shows "(tasks s name \<noteq> None \<longrightarrow>
            Register parse wall s name options expr action = Inl (ErrTaskDuplicated name))
       \<and> Register parse wall (run parse wall (Close s) cs') name options expr action
            = Inl ErrSchedulerClosed
       \<and> (\<forall>s'. Register parse wall s name options expr action = Inr s' \<longrightarrow>
            (\<exists>t. tasks s' name = Some t \<and> t_name t = name)
            \<and> dom (tasks s') = insert name (dom (tasks s)))
       \<and> tasks (Close s) = Map.empty"
proof -
  have inv: "closed s \<longrightarrow> tasks s = Map.empty"
    unfolding s_def by (rule run_closed_empty) (simp add: NewScheduler_def)
  have a: "tasks s name \<noteq> None \<longrightarrow>
            Register parse wall s name options expr action = Inl (ErrTaskDuplicated name)"
    using inv by (auto simp: Register_def)
  have b: "Register parse wall (run parse wall (Close s) cs') name options expr action
            = Inl ErrSchedulerClosed"
    using run_closed [OF Close_closed, of parse wall s cs'] by (simp add: Register_def)
  have c: "\<forall>s'. Register parse wall s name options expr action = Inr s' \<longrightarrow>
            (\<exists>t. tasks s' name = Some t \<and> t_name t = name)
            \<and> dom (tasks s') = insert name (dom (tasks s))"
    by (auto simp: Register_def Let_def newTask_def split: if_splits sum.splits)
  show ?thesis using a b c Close_tasks by blast
qed

theorem Register_Duplicate_Closed_witness:
  "tasks (run parse0 0 (NewScheduler (MockClock 5))
            [CallRegister ''t'' 0 ''@every 1s'' (\<lambda>now. True)]) ''t'' \<noteq> None
   \<and> Register parse0 0
        (run parse0 0 (NewScheduler (MockClock 5))
           [CallRegister ''t'' 0 ''@every 1s'' (\<lambda>now. True)])
        ''t'' 0 ''@every 1s'' (\<lambda>now. False) = Inl (ErrTaskDuplicated ''t'')
   \<and> (\<exists>s'. Register parse0 0 (run parse0 0 (NewScheduler (MockClock 5)) [])
              ''t'' 0 ''@every 1s'' (\<lambda>now. True) = Inr s'
           \<and> dom (tasks s') = {''t''})"
  using Register_Duplicate_Closed
          [of parse0 0 "MockClock 5" "[CallRegister ''t'' 0 ''@every 1s'' (\<lambda>now. True)]"
              "''t''" 0 "''@every 1s''" "\<lambda>now. False" "[]"]
        Register_Duplicate_Closed
          [of parse0 0 "MockClock 5" "[]" "''t''" 0 "''@every 1s''" "\<lambda>now. True" "[]"]
  by (simp add: run_def Register_def NewScheduler_def parse0_def Let_def newTask_def)

text \<open>
  Claim C10. \<open>Register\<close> tests the closed flag before it looks the name up: on a closed
  scheduler it returns the Closed error and not the Duplicate error, whether or not the
  name is (or was) registered.
\<close>

theorem Register_closed_before_duplicate:
  "closed s \<Longrightarrow>
     Register parse wall s name options expr action = Inl ErrSchedulerClosed
     \<and> Register parse wall s name options expr action \<noteq> Inl (ErrTaskDuplicated name)"
  by (simp add: Register_def)

theorem Register_closed_before_duplicate_witness:
  "closed (Close (run parse0 0 (NewScheduler RealClock)
                    [CallRegister ''t'' 0 ''@every 1s'' (\<lambda>now. True)]))
   \<and> Register parse0 0
        (Close (run parse0 0 (NewScheduler RealClock)
                  [CallRegister ''t'' 0 ''@every 1s'' (\<lambda>now. True)]))
        ''t'' 0 ''@every 1s'' (\<lambda>now. True) = Inl ErrSchedulerClosed
   \<and> closed (\<lparr>clock = RealClock,
               tasks = [''t'' \<mapsto> newTask ''t'' RealClock (\<lambda>t. t + 1) (\<lambda>now. True)],
               isMock = False, closed = True\<rparr>)
   \<and> Register parse0 0
        \<lparr>clock = RealClock,
         tasks = [''t'' \<mapsto> newTask ''t'' RealClock (\<lambda>t. t + 1) (\<lambda>now. True)],
         isMock = False, closed = True\<rparr>
        ''t'' 0 ''@every 1s'' (\<lambda>now. True) = Inl ErrSchedulerClosed"
  using Register_closed_before_duplicate
          [of "Close (run parse0 0 (NewScheduler RealClock)
                        [CallRegister ''t'' 0 ''@every 1s'' (\<lambda>now. True)])"
              parse0 0 "''t''" 0 "''@every 1s''" "\<lambda>now. True"]
        Register_closed_before_duplicate
          [of "\<lparr>clock = RealClock,
                tasks = [''t'' \<mapsto> newTask ''t'' RealClock (\<lambda>t. t + 1) (\<lambda>now. True)],
                isMock = False, closed = True\<rparr>"
              parse0 0 "''t''" 0 "''@every 1s''" "\<lambda>now. True"]
  by (simp add: Close_def)

section \<open>Verification: the write path\<close>

text \<open>
  Claim C8. When the message's data is not a list, or is the empty list, \<open>Rev\<close> returns
  at once: its trace is the one warning it logs, so it holds no call on the schema
  repository or the storage layer, and the accumulator was never made.
\<close>

theorem Rev_not_a_list_or_empty:
  "Rev env DataOther = ([OpLog LevelWarn ''invalid event data type''], Inr None)
   \<and> Rev env (DataList []) = ([OpLog LevelWarn ''empty event''], Inr None)
   \<and> filter (\<lambda>x. \<not> isLog x) (fst (Rev env DataOther)) = []
   \<and> filter (\<lambda>x. \<not> isLog x) (fst (Rev env (DataList []))) = []"
  by (simp add: Rev_def)

subsection \<open>What a successful processElements has done\<close>

lemma processElements_success:
  assumes "processElements env et eg writeEvent req el b ts = (b', Inr (et', eg'))"
  obtains md stm seriesID seriesBuffer flds tfs where
    "wr_metadata req = Some md"
    "loadStream env md = Some stm"
    "Marshal env (md_name md) (entityValues writeEvent) = Some (seriesID, seriesBuffer)"
    "processFamilies (Int64ToBytes env) (indexRuleLocators stm) seriesID (el_tagFamilies el) 0
       (schemaTagFamilies stm) [] [] = Inr (flds, tfs)"
    "b' = md_name md @ ''|'' @ el_elementId el"
    "et' = et\<lparr>et_elements :=
               \<lparr>timestamps = timestamps (et_elements et) @ [ts],
                elementIDs = elementIDs (et_elements et) @ [HashStr env b'],
                seriesIDs = seriesIDs (et_elements et) @ [seriesID],
                tagFamilies = tagFamilies (et_elements et) @ [tfs]\<rparr>,
             et_docs := et_docs et @
               [\<lparr>DocID = HashStr env b', Fields = flds, doc_Timestamp = ts,
                 doc_EntityValues = []\<rparr>]\<rparr>"
    "eg' = (if seriesID \<in> docIDsAdded eg then eg
            else eg\<lparr>eg_docs := eg_docs eg @
                       [\<lparr>DocID = seriesID, Fields = [], doc_Timestamp = 0,
                         doc_EntityValues = seriesBuffer\<rparr>],
                    docIDsAdded := insert seriesID (docIDsAdded eg)\<rparr>)"
  using assms
  unfolding processElements_def Let_def
  by (auto split: option.splits if_splits sum.splits prod.splits)

text \<open>
  Claim C6. When \<open>processElements\<close> accepts an event, the element identifier it has
  appended to the batch is the hash of the stream's name, the character \<open>|\<close> and the
  client's element identifier, whatever the builder held before.
\<close>

theorem processElements_elementID:
  assumes "processElements env et eg writeEvent req el b ts = (b', Inr (et', eg'))"
    and "wr_metadata req = Some md"
  shows "elementIDs (et_elements et') =
           elementIDs (et_elements et) @ [HashStr env (md_name md @ ''|'' @ el_elementId el)]"
  using assms(1)
proof (rule processElements_success)
  fix md' stm seriesID seriesBuffer flds tfs
  assume "wr_metadata req = Some md'"
    and "b' = md_name md' @ ''|'' @ el_elementId el"
    and "et' = et\<lparr>et_elements :=
               \<lparr>timestamps = timestamps (et_elements et) @ [ts],
                elementIDs = elementIDs (et_elements et) @ [HashStr env b'],
                seriesIDs = seriesIDs (et_elements et) @ [seriesID],
                tagFamilies = tagFamilies (et_elements et) @ [tfs]\<rparr>,
             et_docs := et_docs et @
               [\<lparr>DocID = HashStr env b', Fields = flds, doc_Timestamp = ts,
                 doc_EntityValues = []\<rparr>]\<rparr>"
  with assms(2) show ?thesis by simp
qed

subsection \<open>What a successful handle has done\<close>

lemma findIndex_Some: "findIndex P xs = Some i \<Longrightarrow> i < length xs \<and> P (xs ! i)"
proof (induction xs arbitrary: i)
  case Nil
  then show ?case by simp
next
  case (Cons x xs)
  then show ?case by (cases i) (auto split: if_splits)
qed

lemma prepareElementsInGroup_success:
  assumes "prepareElementsInGroup env dst req ts = (ops, Inr (dst1, gn, eg1))"
  obtains md db where
    "wr_metadata req = Some md" "gn = md_group md" "loadTSDB env gn = Some db"
    "ops = [OpLoadTSDB gn]" "dst1 = AList.update gn eg1 dst"
    "eg1 = (let eg = (case map_of dst gn of Some eg \<Rightarrow> eg | None \<Rightarrow> newElementsInGroup db)
            in if latestTS eg < ts then eg\<lparr>latestTS := ts\<rparr> else eg)"
  using assms
  unfolding prepareElementsInGroup_def Let_def
  by (auto split: option.splits)

lemma acquireSegment_success:
  assumes "acquireSegment env eg ts = (ops, Inr (eg1, seg))"
  shows "tables eg1 = tables eg \<and> eg_docs eg1 = eg_docs eg \<and> docIDsAdded eg1 = docIDsAdded eg
       \<and> latestTS eg1 = latestTS eg \<and> tsdb eg1 = tsdb eg
       \<and> ((ops = [] \<and> segments eg1 = segments eg) \<or>
           (ops = [OpCreateSegmentIfNotExist (tsdb eg) ts (Some seg)]
            \<and> segments eg1 = segments eg @ [seg]))"
  using assms
  unfolding acquireSegment_def
  by (auto split: option.splits)

lemma prepareElementsInTable_success:
  assumes "prepareElementsInTable env eg shardID ts = (ops, Inr (eg2, i))"
  shows "i < length (tables eg2) \<and> eg_docs eg2 = eg_docs eg \<and> docIDsAdded eg2 = docIDsAdded eg
       \<and> latestTS eg2 = latestTS eg \<and> tsdb eg2 = tsdb eg
       \<and> (tables eg2 = tables eg \<or>
           (\<exists>et. tables eg2 = tables eg @ [et] \<and> et_elements et = emptyElements
                 \<and> i = length (tables eg)))"
proof (cases "findIndex (\<lambda>et. timeRange et ts) (tables eg)")
  case (Some k)
  with assms have "eg2 = eg" "i = k"
    by (auto simp: prepareElementsInTable_def)
  with findIndex_Some [OF Some] show ?thesis by simp
next
  case None
  with assms obtain ops1 eg1 seg tstb where
    acq: "acquireSegment env eg ts = (ops1, Inr (eg1, seg))" and
    eg2: "eg2 = eg1\<lparr>tables := tables eg1 @
                 [\<lparr>timeRange = GetTimeRange env seg, tsTable = tstb,
                   et_elements = emptyElements, et_docs = []\<rparr>]\<rparr>" and
    i: "i = length (tables eg1)"
    by (auto simp: prepareElementsInTable_def Let_def split: prod.splits sum.splits option.splits)
  from acquireSegment_success [OF acq] eg2 i show ?thesis by auto
qed

lemma handle_success:
  assumes "handle env dst writeEvent b = (ops, b', Inr dst')"
  obtains req el gn eg1 dst1 ops1 ops2 eg2 i et' eg3 where
    "request writeEvent = Some req" "wr_element req = Some el" "Check env (el_timestamp el)"
    "prepareElementsInGroup env dst req (el_timestamp el) = (ops1, Inr (dst1, gn, eg1))"
    "prepareElementsInTable env eg1 (shardId writeEvent) (el_timestamp el) = (ops2, Inr (eg2, i))"
    "processElements env (tables eg2 ! i) eg2 writeEvent req el b (el_timestamp el)
       = (b', Inr (et', eg3))"
    "ops = ops1 @ ops2"
    "dst' = AList.update gn (eg3\<lparr>tables := (tables eg3)[i := et']\<rparr>) dst1"
  using assms
  unfolding handle_def Let_def
  by (auto split: option.splits if_splits sum.splits prod.splits)

subsection \<open>The accumulator's invariant\<close>

lemma set_concat_list_update:
  "i < length xs \<Longrightarrow> set (f y) = insert t (set (f (xs ! i))) \<Longrightarrow>
   set (concat (map f (xs[i := y]))) = insert t (set (concat (map f xs)))"
proof (induction xs arbitrary: i)
  case Nil
  then show ?case by simp
next
  case (Cons x xs)
  show ?case
  proof (cases i)
    case 0
    with Cons.prems show ?thesis by auto
  next
    case (Suc k)
    with Cons.prems have "set (concat (map f (xs[k := y]))) = insert t (set (concat (map f xs)))"
      by (intro Cons.IH) auto
    with Suc show ?thesis by auto
  qed
qed

lemma Max_insert_0:
  assumes "finite T"
  shows "Max (insert (0::int) (insert t T)) = max (Max (insert 0 T)) t"
proof -
  have "insert 0 (insert t T) = insert t (insert 0 T)" by auto
  moreover have "Max (insert t (insert 0 T)) = max t (Max (insert 0 T))"
    using assms by (intro Max_insert) auto
  ultimately show ?thesis by (simp add: max.commute)
qed

lemma egInv_new: "egInv (newElementsInGroup db)"
  by (simp add: egInv_def newElementsInGroup_def groupTimestamps_def)

lemma egInv_step:
  assumes inv: "egInv eg0"
    and eg1: "eg1 = (if latestTS eg0 < ts then eg0\<lparr>latestTS := ts\<rparr> else eg0)"
    and tbl: "prepareElementsInTable env eg1 shardID ts = (ops2, Inr (eg2, i))"
    and pe: "processElements env (tables eg2 ! i) eg2 writeEvent req el b ts = (b', Inr (et', eg3))"
  shows "egInv (eg3\<lparr>tables := (tables eg3)[i := et']\<rparr>)"
proof -
  note t = prepareElementsInTable_success [OF tbl]
  from t have i: "i < length (tables eg2)" by simp
  have ts_eq: "set (groupTimestamps eg2) = set (groupTimestamps eg0)"
    using t eg1 by (auto simp: groupTimestamps_def emptyElements_def split: if_splits)
  from pe show ?thesis
  proof (rule processElements_success)
    fix md stm seriesID seriesBuffer flds tfs
    assume et': "et' = (tables eg2 ! i)\<lparr>et_elements :=
               \<lparr>timestamps = timestamps (et_elements (tables eg2 ! i)) @ [ts],
                elementIDs = elementIDs (et_elements (tables eg2 ! i)) @ [HashStr env b'],
                seriesIDs = seriesIDs (et_elements (tables eg2 ! i)) @ [seriesID],
                tagFamilies = tagFamilies (et_elements (tables eg2 ! i)) @ [tfs]\<rparr>,
             et_docs := et_docs (tables eg2 ! i) @
               [\<lparr>DocID = HashStr env b', Fields = flds, doc_Timestamp = ts,
                 doc_EntityValues = []\<rparr>]\<rparr>"
      and eg3: "eg3 = (if seriesID \<in> docIDsAdded eg2 then eg2
            else eg2\<lparr>eg_docs := eg_docs eg2 @
                       [\<lparr>DocID = seriesID, Fields = [], doc_Timestamp = 0,
                         doc_EntityValues = seriesBuffer\<rparr>],
                    docIDsAdded := insert seriesID (docIDsAdded eg2)\<rparr>)"
    have docs2: "distinct (map DocID (eg_docs eg2))"
         "set (map DocID (eg_docs eg2)) = docIDsAdded eg2"
      using inv t eg1 by (auto simp: egInv_def split: if_splits)
    have d1: "distinct (map DocID (eg_docs eg3))"
      using docs2 eg3 by auto
    have d2: "set (map DocID (eg_docs eg3)) = docIDsAdded eg3"
      using docs2 eg3 by auto
    have tabs: "tables eg3 = tables eg2" "latestTS eg3 = latestTS eg2"
      using eg3 by auto
    have "set (timestamps (et_elements et')) = insert ts (set (timestamps (et_elements (tables eg2 ! i))))"
      using et' by simp
    with i have "set (concat (map (\<lambda>et. timestamps (et_elements et)) ((tables eg2)[i := et'])))
               = insert ts (set (concat (map (\<lambda>et. timestamps (et_elements et)) (tables eg2))))"
      by (intro set_concat_list_update)
    then have "set (groupTimestamps (eg3\<lparr>tables := (tables eg3)[i := et']\<rparr>))
               = insert ts (set (groupTimestamps eg2))"
      unfolding groupTimestamps_def using tabs by simp
    with ts_eq have ts3: "set (groupTimestamps (eg3\<lparr>tables := (tables eg3)[i := et']\<rparr>))
               = insert ts (set (groupTimestamps eg0))" by simp
    have l0: "latestTS eg0 = Max (insert 0 (set (groupTimestamps eg0)))"
      using inv by (simp add: egInv_def)
    have "latestTS eg3 = max (latestTS eg0) ts"
      using tabs t eg1 by (auto split: if_splits)
    with l0 have "latestTS eg3 = Max (insert 0 (insert ts (set (groupTimestamps eg0))))"
      by (metis Max_insert_0 List.finite_set)
    with ts3 d1 d2 show ?thesis
      by (simp add: egInv_def)
  qed
qed

lemma list_all_update:
  "list_all (\<lambda>(k, v). P v) al \<Longrightarrow> P v \<Longrightarrow> list_all (\<lambda>(k, v). P v) (AList.update k v al)"
  by (induction al) auto

lemma map_of_list_all:
  "list_all (\<lambda>(k, v). P v) al \<Longrightarrow> map_of al k = Some v \<Longrightarrow> P v"
  by (induction al) (auto split: if_splits)

lemma handle_groupsInv:
  assumes h: "handle env dst writeEvent b = (ops, b', Inr dst')" and inv: "groupsInv dst"
  shows "groupsInv dst'"
  using h
proof (rule handle_success)
  fix req el gn eg1 dst1 ops1 ops2 eg2 i et' eg3
  assume g: "prepareElementsInGroup env dst req (el_timestamp el) = (ops1, Inr (dst1, gn, eg1))"
    and t: "prepareElementsInTable env eg1 (shardId writeEvent) (el_timestamp el) = (ops2, Inr (eg2, i))"
    and p: "processElements env (tables eg2 ! i) eg2 writeEvent req el b (el_timestamp el)
       = (b', Inr (et', eg3))"
    and dst': "dst' = AList.update gn (eg3\<lparr>tables := (tables eg3)[i := et']\<rparr>) dst1"
  from g show ?thesis
  proof (rule prepareElementsInGroup_success)
    fix md db
    assume dst1: "dst1 = AList.update gn eg1 dst"
      and eg1: "eg1 = (let eg = (case map_of dst gn of Some eg \<Rightarrow> eg | None \<Rightarrow> newElementsInGroup db)
            in if latestTS eg < el_timestamp el then eg\<lparr>latestTS := el_timestamp el\<rparr> else eg)"
    define eg0 where "eg0 = (case map_of dst gn of Some eg \<Rightarrow> eg | None \<Rightarrow> newElementsInGroup db)"
    have inv0: "egInv eg0"
      unfolding eg0_def using inv egInv_new
      by (auto simp: groupsInv_def split: option.splits dest: map_of_list_all)
    have e1: "eg1 = (if latestTS eg0 < el_timestamp el then eg0\<lparr>latestTS := el_timestamp el\<rparr> else eg0)"
      using eg1 by (simp add: eg0_def Let_def)
    have fin: "egInv (eg3\<lparr>tables := (tables eg3)[i := et']\<rparr>)"
      by (rule egInv_step [OF inv0 e1 t p])
    have "dst' = AList.update gn (eg3\<lparr>tables := (tables eg3)[i := et']\<rparr>) dst"
      using dst' dst1 by simp
    with inv fin show ?thesis
      by (simp add: groupsInv_def distinct_update list_all_update)
  qed
qed

subsection \<open>The first loop of Rev\<close>

lemma prepareElementsInGroup_ops:
  "prepareElementsInGroup env dst req ts = (ops, r) \<Longrightarrow> list_all isPrepare ops"
  unfolding prepareElementsInGroup_def Let_def
  by (auto split: option.splits)

lemma acquireSegment_ops:
  "acquireSegment env eg ts = (ops, r) \<Longrightarrow> list_all isPrepare ops"
  unfolding acquireSegment_def
  by (auto split: option.splits)

lemma prepareElementsInTable_ops:
  "prepareElementsInTable env eg shardID ts = (ops, r) \<Longrightarrow> list_all isPrepare ops"
  unfolding prepareElementsInTable_def Let_def
  by (auto split: option.splits prod.splits sum.splits dest: acquireSegment_ops)

lemma handle_ops:
  "handle env dst writeEvent b = (ops, b', r) \<Longrightarrow> list_all isPrepare ops"
  unfolding handle_def Let_def
  by (auto split: option.splits if_splits prod.splits sum.splits
           dest: prepareElementsInGroup_ops prepareElementsInTable_ops)

lemma revLoop_ops:
  "revLoop env events G b = (ops, b', r) \<Longrightarrow> list_all (\<lambda>x. isPrepare x \<or> isLog x) ops"
proof (induction events arbitrary: G b ops b' r)
  case Nil
  then show ?case by simp
next
  case (Cons e events)
  show ?case
  proof (cases "decodeEvent env e")
    case (Inl logged)
    then have "isLog logged"
      by (auto simp: decodeEvent_def split: any.splits option.splits)
    with Cons Inl show ?thesis
      by (auto split: prod.splits)
  next
    case (Inr writeEvent)
    obtain ops1 b1 r1 where h: "handle env G writeEvent b = (ops1, b1, r1)"
      by (cases "handle env G writeEvent b") auto
    from handle_ops [OF h] have p: "list_all (\<lambda>x. isPrepare x \<or> isLog x) ops1"
      by (induction ops1) auto
    from Cons Inr h p show ?thesis
      by (auto split: prod.splits sum.splits if_splits)
  qed
qed

lemma revLoop_groupsInv:
  "revLoop env events G b = (ops, b', Inr G') \<Longrightarrow> groupsInv G \<Longrightarrow> groupsInv G'"
proof (induction events arbitrary: G b ops b')
  case Nil
  then show ?case by simp
next
  case (Cons e events)
  have empty: "groupsInv []" by (simp add: groupsInv_def)
  show ?case
  proof (cases "decodeEvent env e")
    case (Inl logged)
    with Cons show ?thesis
      by (auto split: prod.splits)
  next
    case (Inr writeEvent)
    obtain ops1 b1 r1 where h: "handle env G writeEvent b = (ops1, b1, r1)"
      by (cases "handle env G writeEvent b") auto
    show ?thesis
    proof (cases r1)
      case (Inl err)
      with Cons.prems Inr h obtain ops2 where "revLoop env events [] b1 = (ops2, b', Inr G')"
        by (auto split: prod.splits if_splits)
      from Cons.IH [OF this empty] show ?thesis .
    next
      case r: (Inr G1)
      with Cons.prems Inr h obtain ops2 where l: "revLoop env events G1 b1 = (ops2, b', Inr G')"
        by (auto split: prod.splits)
      from h r Cons.prems(2) have "groupsInv G1"
        by (auto dest: handle_groupsInv)
      from Cons.IH [OF l this] show ?thesis .
    qed
  qed
qed

lemma revLoop_append:
  "revLoop env (xs @ ys) G b =
     (case revLoop env xs G b of
        (ops1, b1, Inl err) \<Rightarrow> (ops1, b1, Inl err)
      | (ops1, b1, Inr G1) \<Rightarrow>
          (ops1 @ fst (revLoop env ys G1 b1), snd (revLoop env ys G1 b1)))"
proof (induction xs arbitrary: G b)
  case Nil
  then show ?case by simp
next
  case (Cons e xs)
  show ?case
  proof (cases "decodeEvent env e")
    case (Inl logged)
    with Cons show ?thesis
      by (auto split: prod.splits sum.splits)
  next
    case (Inr writeEvent)
    obtain ops1 b1 r1 where h: "handle env G writeEvent b = (ops1, b1, r1)"
      by (cases "handle env G writeEvent b") auto
    with Cons Inr show ?thesis
      by (cases r1) (auto split: prod.splits sum.splits)
  qed
qed

text \<open>
  Claim C4. In the loop of \<open>Rev\<close>: a byte payload that fails to unmarshal and an event
  of an unrecognised type are logged and skipped, the accumulator unchanged and the loop
  going on with the next event; and when \<open>handle\<close> returns an error for an event, after
  any events \<open>pre\<close> before it, the loop logs it and goes on with the next event from the
  empty accumulator, so that what \<open>Rev\<close> flushes is what the events after the error
  built. If the failing event is the last one, \<open>Rev\<close> flushes nothing.
\<close>

theorem Rev_skip_and_reset:
  "(Unmarshal env raw = None \<longrightarrow>
      revLoop env (EvBytes raw # events) G b =
        (OpLog LevelError ''fail to unmarshal event'' # fst (revLoop env events G b),
         snd (revLoop env events G b)))
   \<and> revLoop env (EvOther # events) G b =
        (OpLog LevelWarn ''invalid event data type'' # fst (revLoop env events G b),
         snd (revLoop env events G b))
   \<and> (revLoop env pre G b = (ops1, b1, Inr G1) \<and> decodeEvent env e = Inr writeEvent
        \<and> handle env G1 writeEvent b1 = (ops2, b2, Inl err) \<and> \<not> isPanic err \<longrightarrow>
      revLoop env (pre @ e # events) G b =
        (ops1 @ ops2 @ OpLog LevelError ''cannot handle write event'' #
           fst (revLoop env events [] b2),
         snd (revLoop env events [] b2)))
   \<and> (revLoop env pre [] [] = (ops1, b1, Inr G1) \<and> decodeEvent env e = Inr writeEvent
        \<and> handle env G1 writeEvent b1 = (ops2, b2, Inl err) \<and> \<not> isPanic err
        \<and> mapRange env [] = [] \<longrightarrow>
      Rev env (DataList (pre @ [e])) =
        (ops1 @ ops2 @ [OpLog LevelError ''cannot handle write event''], Inr (Some [])))"
proof -
  have a: "Unmarshal env raw = None \<longrightarrow>
      revLoop env (EvBytes raw # events) G b =
        (OpLog LevelError ''fail to unmarshal event'' # fst (revLoop env events G b),
         snd (revLoop env events G b))"
    by (simp add: decodeEvent_def split: prod.splits)
  have b: "revLoop env (EvOther # events) G b =
        (OpLog LevelWarn ''invalid event data type'' # fst (revLoop env events G b),
         snd (revLoop env events G b))"
    by (simp add: decodeEvent_def split: prod.splits)
  have c: "revLoop env (pre @ e # events) G' b' =
        (ops1 @ ops2 @ OpLog LevelError ''cannot handle write event'' #
           fst (revLoop env events [] b2),
         snd (revLoop env events [] b2))"
    if "revLoop env pre G' b' = (ops1, b1, Inr G1)" "decodeEvent env e = Inr writeEvent"
       "handle env G1 writeEvent b1 = (ops2, b2, Inl err)" "\<not> isPanic err"
    for G' b' events
    using that by (simp add: revLoop_append split: prod.splits)
  have d: "Rev env (DataList (pre @ [e])) =
        (ops1 @ ops2 @ [OpLog LevelError ''cannot handle write event''], Inr (Some []))"
    if "revLoop env pre [] [] = (ops1, b1, Inr G1)" "decodeEvent env e = Inr writeEvent"
       "handle env G1 writeEvent b1 = (ops2, b2, Inl err)" "\<not> isPanic err"
       "mapRange env [] = []"
    using c [OF that(1-4), of "[]"] that(5)
    by (simp add: Rev_def flushGroups_def)
  from a b c d show ?thesis by blast
qed

theorem Rev_skip_and_reset_witness:
  "Rev env0 (DataList ([EvBytes ''e1''] @ [EvWriteRequest evNoFamily])) =
     ([OpLoadTSDB ''g'', OpCreateSegmentIfNotExist 1 1000000 (Some 100),
       OpCreateTSTableIfNotExist 100 3 (Some 1003), OpLoadTSDB ''g'',
       OpLog LevelError ''cannot handle write event''],
      Inr (Some []))
   \<and> revLoop env0 (EvBytes ''zz'' # [EvOther]) [] [] =
       ([OpLog LevelError ''fail to unmarshal event'',
         OpLog LevelWarn ''invalid event data type''], [], Inr [])"
proof -
  have "\<exists>ops1 b1 G1 ops2 b2 err.
          revLoop env0 [EvBytes ''e1''] [] [] = (ops1, b1, Inr G1)
          \<and> handle env0 G1 evNoFamily b1 = (ops2, b2, Inl err) \<and> \<not> isPanic err
          \<and> ops1 @ ops2 = [OpLoadTSDB ''g'', OpCreateSegmentIfNotExist 1 1000000 (Some 100),
                OpCreateTSTableIfNotExist 100 3 (Some 1003), OpLoadTSDB ''g'']"
    by (simp add: write_path_defs concrete_defs)
  then obtain ops1 b1 G1 ops2 b2 err where
    h: "revLoop env0 [EvBytes ''e1''] [] [] = (ops1, b1, Inr G1)"
       "handle env0 G1 evNoFamily b1 = (ops2, b2, Inl err)" "\<not> isPanic err"
       "ops1 @ ops2 = [OpLoadTSDB ''g'', OpCreateSegmentIfNotExist 1 1000000 (Some 100),
                OpCreateTSTableIfNotExist 100 3 (Some 1003), OpLoadTSDB ''g'']"
    by blast
  have d: "decodeEvent env0 (EvWriteRequest evNoFamily) = Inr evNoFamily"
    by (simp add: decodeEvent_def)
  have m: "mapRange env0 [] = []" by (simp add: env0_def)
  have u: "Unmarshal env0 ''zz'' = None" by (simp add: env0_def)
  note inst = Rev_skip_and_reset [of env0 "''zz''" "[EvOther]" "[]" "[]" "[EvBytes ''e1'']"
         ops1 b1 G1 "EvWriteRequest evNoFamily" evNoFamily ops2 b2 err]
  from inst h d m
  have "Rev env0 (DataList ([EvBytes ''e1''] @ [EvWriteRequest evNoFamily])) =
          (ops1 @ ops2 @ [OpLog LevelError ''cannot handle write event''], Inr (Some []))"
    by blast
  then have r1: "Rev env0 (DataList ([EvBytes ''e1''] @ [EvWriteRequest evNoFamily])) =
          ((ops1 @ ops2) @ [OpLog LevelError ''cannot handle write event''], Inr (Some []))"
    by simp
  from inst u
  have "revLoop env0 (EvBytes ''zz'' # [EvOther]) [] [] =
          (OpLog LevelError ''fail to unmarshal event'' # fst (revLoop env0 [EvOther] [] []),
           snd (revLoop env0 [EvOther] [] []))"
    by blast
  then have r2: "revLoop env0 (EvBytes ''zz'' # [EvOther]) [] [] =
       ([OpLog LevelError ''fail to unmarshal event'',
         OpLog LevelWarn ''invalid event data type''], [], Inr [])"
    by (simp add: decodeEvent_def)
  from r1 r2 show ?thesis unfolding h(4) by simp
qed

theorem processElements_elementID_witness:
  "\<exists>b' et' eg'.
     processElements env0 exTable exGroup evOK reqOK elOK ''stale'' 1000000 = (b', Inr (et', eg'))
     \<and> wr_metadata reqOK = Some mdSvc
     \<and> elementIDs (et_elements et') = [HashStr env0 ''svc|e1'']"
proof -
  have "\<exists>b' et' eg'.
          processElements env0 exTable exGroup evOK reqOK elOK ''stale'' 1000000 = (b', Inr (et', eg'))"
    by (simp add: write_path_defs concrete_defs)
  then obtain b' et' eg' where
    h: "processElements env0 exTable exGroup evOK reqOK elOK ''stale'' 1000000 = (b', Inr (et', eg'))"
    by blast
  have m: "wr_metadata reqOK = Some mdSvc" by (simp add: reqOK_def)
  from processElements_elementID [OF h m]
  have "elementIDs (et_elements et') = [HashStr env0 ''svc|e1'']"
    by (simp add: exTable_def emptyElements_def mdSvc_def elOK_def)
  with h m show ?thesis by blast
qed

subsection \<open>The flush\<close>











lemma Rev_flushed:
  assumes "Rev env message = (ops, Inr (Some G))"
  obtains events loopOps b where
    "message = DataList events" "revLoop env events [] [] = (loopOps, b, Inr G)"
    "ops = loopOps @ flushGroups env G" "groupsInv G"
    "list_all (\<lambda>x. isPrepare x \<or> isLog x) loopOps"
proof -
  from assms obtain events loopOps b where
    m: "message = DataList events" and l: "revLoop env events [] [] = (loopOps, b, Inr G)"
    and o: "ops = loopOps @ flushGroups env G"
    by (auto simp: Rev_def split: messageData.splits if_splits prod.splits sum.splits)
  have "groupsInv []" by (simp add: groupsInv_def)
  with l have "groupsInv G" by (rule revLoop_groupsInv)
  with m l o revLoop_ops [OF l] that show ?thesis by blast
qed

lemma groupsInv_member: "groupsInv G \<Longrightarrow> (gn, eg) \<in> set G \<Longrightarrow> egInv eg"
  by (auto simp: groupsInv_def list_all_iff)


subsection \<open>The timestamps a group accumulates\<close>







text \<open>
  The assumption on \<open>timestamp.Check\<close> is used: \<open>latestTS\<close> starts at 0 and is only
  ever raised, so under a validation that admits a time before 1970 a group holding only
  such an event is ticked with 0, not with the event's (negative) timestamp.
\<close>

lemma Rev_Tick_before_1970:
  "ticksOf (fst (Rev envLax (DataList [EvWriteRequest evBefore1970]))) = [(1, 0)]
   \<and> accumulatedMax (snd (Rev envLax (DataList [EvWriteRequest evBefore1970])))
       = [(''g'', - 1000000)]"
  by (simp add: write_path_defs concrete_defs accumulatedMax_def groupTimestamps_def)

subsection \<open>Series documents\<close>

lemma filter_DocID_distinct:
  "distinct (map DocID docs) \<Longrightarrow>
   length (filter (\<lambda>d. DocID d = sid) docs) = (if sid \<in> set (map DocID docs) then 1 else 0)"
  by (induction docs) auto

lemma seriesInserts_append:
  "seriesInserts sid (xs @ ys) = seriesInserts sid xs + seriesInserts sid ys"
  by (simp add: seriesInserts_def)

lemma seriesInserts_loop:
  "list_all (\<lambda>x. isPrepare x \<or> isLog x) ops \<Longrightarrow> seriesInserts sid ops = 0"
  unfolding seriesInserts_def
  by (induction ops) (auto elim: isPrepare.elims isLog.elims)

lemma seriesInserts_flushTable: "seriesInserts sid (flushTable env es) = 0"
  by (auto simp: seriesInserts_def flushTable_def)

lemma seriesInserts_tables:
  "seriesInserts sid (concat (map (flushTable env) ts)) = 0"
proof (induction ts)
  case Nil
  then show ?case by (simp add: seriesInserts_def)
next
  case (Cons t ts)
  then show ?case by (simp add: seriesInserts_append seriesInserts_flushTable)
qed

lemma seriesInserts_flushSegment:
  "seriesInserts sid (flushSegment env docs seg) = length (filter (\<lambda>d. DocID d = sid) docs)"
  by (simp add: seriesInserts_def flushSegment_def)

lemma seriesInserts_segments:
  "seriesInserts sid (concat (map (flushSegment env docs) segs)) =
     length segs * length (filter (\<lambda>d. DocID d = sid) docs)"
proof (induction segs)
  case Nil
  then show ?case by (simp add: seriesInserts_def)
next
  case (Cons seg segs)
  then show ?case
    by (simp add: seriesInserts_append seriesInserts_flushSegment)
qed

lemma seriesInserts_flushGroup:
  assumes "distinct (map DocID (eg_docs eg))" "set (map DocID (eg_docs eg)) = docIDsAdded eg"
  shows "seriesInserts sid (flushGroup env eg) =
           (if sid \<in> docIDsAdded eg then length (segments eg) else 0)"
proof -
  have tick: "seriesInserts sid [OpTick (tsdb eg) (latestTS eg)] = 0"
    by (simp add: seriesInserts_def)
  have cnt: "length (filter (\<lambda>d. DocID d = sid) (eg_docs eg))
               = (if sid \<in> docIDsAdded eg then 1 else 0)"
    using filter_DocID_distinct [OF assms(1), of sid] assms(2) by simp
  show ?thesis
  proof (cases "eg_docs eg = []")
    case True
    with assms(2) have "docIDsAdded eg = {}" by simp
    with True show ?thesis
      by (simp add: flushGroup_def seriesInserts_append seriesInserts_tables tick)
  next
    case False
    then show ?thesis
      by (simp add: flushGroup_def seriesInserts_append seriesInserts_tables tick
                    seriesInserts_segments cnt)
  qed
qed

text \<open>
  Claim C2, as amended. When \<open>Rev\<close> returns after its flush, for every group of the
  accumulator it flushed: the pending series documents carry pairwise distinct
  identifiers, exactly those recorded in \<open>docIDsAdded\<close>; the first loop inserts nothing;
  and the flush of the group hands the pending documents to \<open>IndexDB().Insert\<close> once for
  each segment the group holds, so a series identifier is inserted at most once per held
  segment and, over the flush of the group, as many times as the group holds segments
  (not at all if it is not pending).
\<close>

theorem Rev_series_inserts:
  assumes "Rev env message = (ops, Inr (Some G))" and "(gn, eg) \<in> set G"
  shows "distinct (map DocID (eg_docs eg))
       \<and> set (map DocID (eg_docs eg)) = docIDsAdded eg
       \<and> (\<forall>seg \<in> set (segments eg). seriesInserts sid (flushSegment env (eg_docs eg) seg) \<le> 1)
       \<and> seriesInserts sid (flushGroup env eg)
           = (if sid \<in> docIDsAdded eg then length (segments eg) else 0)
       \<and> (\<exists>loopOps. ops = loopOps @ flushGroups env G \<and> seriesInserts sid loopOps = 0)"
  using assms(1)
proof (rule Rev_flushed)
  fix events loopOps b
  assume o: "ops = loopOps @ flushGroups env G" and inv: "groupsInv G"
    and p: "list_all (\<lambda>x. isPrepare x \<or> isLog x) loopOps"
  from groupsInv_member [OF inv assms(2)]
  have d: "distinct (map DocID (eg_docs eg))" "set (map DocID (eg_docs eg)) = docIDsAdded eg"
    by (simp_all add: egInv_def)
  have s: "\<forall>seg \<in> set (segments eg). seriesInserts sid (flushSegment env (eg_docs eg) seg) \<le> 1"
    using filter_DocID_distinct [OF d(1), of sid] by (simp add: seriesInserts_flushSegment)
  have l: "\<exists>loopOps. ops = loopOps @ flushGroups env G \<and> seriesInserts sid loopOps = 0"
    using o seriesInserts_loop [OF p] by blast
  from d s l seriesInserts_flushGroup [OF d] show ?thesis by blast
qed

theorem Rev_series_inserts_witness:
  "\<exists>ops eg. Rev env0 (DataList [EvWriteRequest evOK, EvWriteRequest evLater])
               = (ops, Inr (Some [(''g'', eg)]))
     \<and> segments eg = [100, 102] \<and> docIDsAdded eg = {1}
     \<and> distinct (map DocID (eg_docs eg))
     \<and> seriesInserts 1 (flushSegment env0 (eg_docs eg) 100) \<le> 1
     \<and> seriesInserts 1 (flushGroup env0 eg) = 2"
proof -
  have "\<exists>ops eg. Rev env0 (DataList [EvWriteRequest evOK, EvWriteRequest evLater])
                    = (ops, Inr (Some [(''g'', eg)]))
          \<and> segments eg = [100, 102] \<and> docIDsAdded eg = {1}"
    by (simp add: write_path_defs concrete_defs)
  then obtain ops eg where
    h: "Rev env0 (DataList [EvWriteRequest evOK, EvWriteRequest evLater])
          = (ops, Inr (Some [(''g'', eg)]))"
    and e: "segments eg = [100, 102]" "docIDsAdded eg = {1}"
    by blast
  have m: "(''g'', eg) \<in> set [(''g'', eg)]" by simp
  from Rev_series_inserts [OF h m, of 1] e
  have "distinct (map DocID (eg_docs eg))
     \<and> seriesInserts 1 (flushSegment env0 (eg_docs eg) 100) \<le> 1
     \<and> seriesInserts 1 (flushGroup env0 eg) = 2"
    by simp
  with h e show ?thesis by blast
qed

text \<open>
  Claim C2 as it is stated fails when a group holds two segments: the one pending
  document of the series is inserted twice by one \<open>Rev\<close>, once into the IndexDB of each
  segment.
\<close>

theorem Rev_series_inserts_counterexample:
  "seriesInserts 1 (fst (Rev env0 (DataList [EvWriteRequest evOK, EvWriteRequest evLater]))) = 2
   \<and> \<not> seriesInserts 1 (fst (Rev env0 (DataList [EvWriteRequest evOK, EvWriteRequest evLater])))
         \<le> 1"
  by (simp add: write_path_defs concrete_defs seriesInserts_def)

subsection \<open>Segment references when no event is refused\<close>

lemma acquired_append: "acquired seg (xs @ ys) = acquired seg xs + acquired seg ys"
  by (simp add: acquired_def)

lemma released_append: "released seg (xs @ ys) = released seg xs + released seg ys"
  by (simp add: released_def)

lemma sum_list_update:
  "sum_list (map (\<lambda>(k, v). f v) (AList.update k v al))
     + (case map_of al k of None \<Rightarrow> 0 | Some v0 \<Rightarrow> f v0)
   = sum_list (map (\<lambda>(k, v). f v) al) + (f v :: nat)"
  by (induction al) auto

lemma held_update:
  "held seg (AList.update gn eg G)
     + (case map_of G gn of None \<Rightarrow> 0 | Some eg0 \<Rightarrow> count_list (segments eg0) seg)
   = held seg G + count_list (segments eg) seg"
  unfolding held_def
  by (rule sum_list_update [where f = "\<lambda>eg. count_list (segments eg) seg"])

lemma prepareElementsInTable_segments:
  assumes "prepareElementsInTable env eg shardID ts = (ops, Inr (eg2, i))"
  shows "count_list (segments eg2) seg = count_list (segments eg) seg + acquired seg ops"
proof (cases "findIndex (\<lambda>et. timeRange et ts) (tables eg)")
  case (Some k)
  with assms show ?thesis
    by (auto simp: prepareElementsInTable_def acquired_def)
next
  case None
  with assms obtain ops1 eg1 s tstb where
    acq: "acquireSegment env eg ts = (ops1, Inr (eg1, s))" and
    ops: "ops = ops1 @ [OpCreateTSTableIfNotExist s shardID (Some tstb)]" and
    eg2: "segments eg2 = segments eg1"
    by (auto simp: prepareElementsInTable_def Let_def split: prod.splits sum.splits option.splits)
  from acquireSegment_success [OF acq] ops eg2 show ?thesis
    by (auto simp: acquired_def)
qed

lemma handle_held:
  assumes h: "handle env dst writeEvent b = (ops, b', Inr dst')"
  shows "held seg dst' = held seg dst + acquired seg ops"
  using h
proof (rule handle_success)
  fix req el gn eg1 dst1 ops1 ops2 eg2 i et' eg3
  assume g: "prepareElementsInGroup env dst req (el_timestamp el) = (ops1, Inr (dst1, gn, eg1))"
    and t: "prepareElementsInTable env eg1 (shardId writeEvent) (el_timestamp el) = (ops2, Inr (eg2, i))"
    and p: "processElements env (tables eg2 ! i) eg2 writeEvent req el b (el_timestamp el)
       = (b', Inr (et', eg3))"
    and ops: "ops = ops1 @ ops2"
    and dst': "dst' = AList.update gn (eg3\<lparr>tables := (tables eg3)[i := et']\<rparr>) dst1"
  from p have s3: "segments eg3 = segments eg2"
    by (rule processElements_success) (auto split: if_splits)
  from g show ?thesis
  proof (rule prepareElementsInGroup_success)
    fix md db
    assume o1: "ops1 = [OpLoadTSDB gn]" and dst1: "dst1 = AList.update gn eg1 dst"
      and eg1: "eg1 = (let eg = (case map_of dst gn of Some eg \<Rightarrow> eg | None \<Rightarrow> newElementsInGroup db)
            in if latestTS eg < el_timestamp el then eg\<lparr>latestTS := el_timestamp el\<rparr> else eg)"
    have s1: "count_list (segments eg1) seg
                = (case map_of dst gn of None \<Rightarrow> 0 | Some eg0 \<Rightarrow> count_list (segments eg0) seg)"
      using eg1 by (auto simp: Let_def newElementsInGroup_def split: option.splits)
    have d: "dst' = AList.update gn (eg3\<lparr>tables := (tables eg3)[i := et']\<rparr>) dst"
      using dst' dst1 by simp
    have "held seg dst' + count_list (segments eg1) seg
            = held seg dst + count_list (segments eg2) seg"
      unfolding d s1 using held_update [of seg gn "eg3\<lparr>tables := (tables eg3)[i := et']\<rparr>" dst] s3
      by simp
    with prepareElementsInTable_segments [OF t, of seg] ops o1 show ?thesis
      by (simp add: acquired_append acquired_def)
  qed
qed

lemma revLoop_held:
  "revLoop env events G b = (ops, b', Inr G') \<Longrightarrow> \<not> handleErrorLogged ops \<Longrightarrow>
   held seg G' = held seg G + acquired seg ops"
proof (induction events arbitrary: G b ops b')
  case Nil
  then show ?case by (simp add: acquired_def)
next
  case (Cons e events)
  show ?case
  proof (cases "decodeEvent env e")
    case (Inl logged)
    then have lg: "isLog logged"
      by (auto simp: decodeEvent_def split: any.splits option.splits)
    from Cons.prems Inl obtain ops2 where
      l: "revLoop env events G b = (ops2, b', Inr G')" and o: "ops = logged # ops2"
      by (auto split: prod.splits)
    from Cons.prems(2) o have "\<not> handleErrorLogged ops2"
      by (auto simp: handleErrorLogged_def)
    from Cons.IH [OF l this] o lg show ?thesis
      by (cases logged) (auto simp: acquired_def)
  next
    case (Inr writeEvent)
    obtain ops1 b1 r1 where h: "handle env G writeEvent b = (ops1, b1, r1)"
      by (cases "handle env G writeEvent b") auto
    show ?thesis
    proof (cases r1)
      case (Inl err)
      with Cons.prems Inr h have "handleErrorLogged ops"
        by (auto simp: handleErrorLogged_def split: prod.splits if_splits)
      with Cons.prems(2) show ?thesis by simp
    next
      case r: (Inr G1)
      with Cons.prems Inr h obtain ops2 where
        l: "revLoop env events G1 b1 = (ops2, b', Inr G')" and o: "ops = ops1 @ ops2"
        by (auto split: prod.splits)
      from Cons.prems(2) o have "\<not> handleErrorLogged ops2"
        by (auto simp: handleErrorLogged_def)
      from Cons.IH [OF l this] handle_held [of env G writeEvent b ops1 b1 G1 seg] h r o
      show ?thesis by (simp add: acquired_append)
    qed
  qed
qed

lemma handle_docs_nonempty:
  assumes h: "handle env dst writeEvent b = (ops, b', Inr dst')" and inv: "groupsInv dst"
    and ne: "list_all (\<lambda>(gn, eg). eg_docs eg \<noteq> []) dst"
  shows "list_all (\<lambda>(gn, eg). eg_docs eg \<noteq> []) dst'"
  using h
proof (rule handle_success)
  fix req el gn eg1 dst1 ops1 ops2 eg2 i et' eg3
  assume g: "prepareElementsInGroup env dst req (el_timestamp el) = (ops1, Inr (dst1, gn, eg1))"
    and t: "prepareElementsInTable env eg1 (shardId writeEvent) (el_timestamp el) = (ops2, Inr (eg2, i))"
    and p: "processElements env (tables eg2 ! i) eg2 writeEvent req el b (el_timestamp el)
       = (b', Inr (et', eg3))"
    and dst': "dst' = AList.update gn (eg3\<lparr>tables := (tables eg3)[i := et']\<rparr>) dst1"
  from g have dst1: "dst1 = AList.update gn eg1 dst"
    by (rule prepareElementsInGroup_success)
  then have d: "dst' = AList.update gn (eg3\<lparr>tables := (tables eg3)[i := et']\<rparr>) dst"
    using dst' by simp
  from handle_groupsInv [OF h inv] have "groupsInv dst'" .
  moreover have "map_of dst' gn = Some (eg3\<lparr>tables := (tables eg3)[i := et']\<rparr>)"
    unfolding d by (simp add: update_conv')
  ultimately have e3: "egInv (eg3\<lparr>tables := (tables eg3)[i := et']\<rparr>)"
    unfolding groupsInv_def by (auto dest: map_of_list_all)
  from p have "docIDsAdded eg3 \<noteq> {}"
    by (rule processElements_success) (auto split: if_splits)
  with e3 have "eg_docs (eg3\<lparr>tables := (tables eg3)[i := et']\<rparr>) \<noteq> []"
    by (auto simp: egInv_def)
  with ne show ?thesis
    unfolding d by (simp add: list_all_update)
qed

lemma revLoop_docs_nonempty:
  "revLoop env events G b = (ops, b', Inr G') \<Longrightarrow> groupsInv G \<Longrightarrow>
   list_all (\<lambda>(gn, eg). eg_docs eg \<noteq> []) G \<Longrightarrow> list_all (\<lambda>(gn, eg). eg_docs eg \<noteq> []) G'"
proof (induction events arbitrary: G b ops b')
  case Nil
  then show ?case by simp
next
  case (Cons e events)
  have empty: "groupsInv []" by (simp add: groupsInv_def)
  show ?case
  proof (cases "decodeEvent env e")
    case (Inl logged)
    with Cons.prems(1) obtain ops2 where "revLoop env events G b = (ops2, b', Inr G')"
      by (auto split: prod.splits)
    from Cons.IH [OF this Cons.prems(2,3)] show ?thesis .
  next
    case (Inr writeEvent)
    obtain ops1 b1 r1 where h: "handle env G writeEvent b = (ops1, b1, r1)"
      by (cases "handle env G writeEvent b") auto
    show ?thesis
    proof (cases r1)
      case (Inl err)
      with Cons.prems Inr h obtain ops2 where "revLoop env events [] b1 = (ops2, b', Inr G')"
        by (auto split: prod.splits if_splits)
      from Cons.IH [OF this empty] show ?thesis by simp
    next
      case r: (Inr G1)
      with Cons.prems Inr h obtain ops2 where l: "revLoop env events G1 b1 = (ops2, b', Inr G')"
        by (auto split: prod.splits)
      from h r Cons.prems(2) have i1: "groupsInv G1"
        by (auto dest: handle_groupsInv)
      from h r Cons.prems(2,3) have n1: "list_all (\<lambda>(gn, eg). eg_docs eg \<noteq> []) G1"
        by (auto dest: handle_docs_nonempty)
      from Cons.IH [OF l i1 n1] show ?thesis .
    qed
  qed
qed

lemma released_flushTables: "released seg (concat (map (flushTable env) ts)) = 0"
  by (induction ts) (auto simp: released_def flushTable_def)

lemma released_flushSegments:
  "released seg (concat (map (flushSegment env docs) segs)) = count_list segs seg"
  by (induction segs) (auto simp: released_def flushSegment_def)

lemma released_flushGroup:
  "eg_docs eg \<noteq> [] \<Longrightarrow> released seg (flushGroup env eg) = count_list (segments eg) seg"
  by (simp add: flushGroup_def released_append released_flushTables released_flushSegments)
     (simp add: released_def)

lemma released_flush_list:
  "list_all (\<lambda>(gn, eg). eg_docs eg \<noteq> []) gs \<Longrightarrow>
   released seg (concat (map (\<lambda>(gn, g). flushGroup env g) gs)) = held seg gs"
proof (induction gs)
  case Nil
  then show ?case by (simp add: released_def held_def)
next
  case (Cons g gs)
  then show ?case
    by (cases g) (simp add: released_append released_flushGroup held_def)
qed

lemma acquired_flush_list:
  "acquired seg (concat (map (\<lambda>(gn, g). flushGroup env g) gs)) = 0"
proof (induction gs)
  case Nil
  then show ?case by (simp add: acquired_def)
next
  case (Cons g gs)
  have t: "acquired seg (concat (map (flushTable env) ts)) = 0" for ts
    by (induction ts) (auto simp: acquired_def flushTable_def)
  have s: "acquired seg (concat (map (flushSegment env docs) segs)) = 0" for docs segs
    by (induction segs) (auto simp: acquired_def flushSegment_def)
  have "acquired seg (flushGroup env eg) = 0" for eg
    using t [of "tables eg"] s [of "eg_docs eg" "segments eg"]
    by (simp add: flushGroup_def acquired_append) (simp add: acquired_def)
  with Cons show ?case
    by (cases g) (simp add: acquired_append)
qed

lemma released_loop: "list_all (\<lambda>x. isPrepare x \<or> isLog x) ops \<Longrightarrow> released seg ops = 0"
  unfolding released_def
  by (induction ops) (auto elim: isPrepare.elims isLog.elims)

lemma held_mset: "mset gs = mset gs' \<Longrightarrow> held seg gs = held seg gs'"
proof -
  assume "mset gs = mset gs'"
  then have "mset (map (\<lambda>(gn, eg). count_list (segments eg) seg) gs)
               = mset (map (\<lambda>(gn, eg). count_list (segments eg) seg) gs')"
    by simp
  then show ?thesis
    unfolding held_def by (metis sum_mset_sum_list)
qed

text \<open>
  When no event of the batch is refused by \<open>handle\<close>, \<open>Rev\<close> does release every
  segment it acquired: the flush makes as many \<open>DecRef\<close> calls on a segment as the loop
  has acquired it.
\<close>

lemma Rev_releases_when_nothing_refused:
  assumes r: "Rev env message = (ops, Inr (Some G))"
    and ok: "\<not> handleErrorLogged ops"
    and perm: "mset (mapRange env G) = mset G"
  shows "released seg ops = acquired seg ops"
  using r
proof (rule Rev_flushed)
  fix events loopOps b
  assume l: "revLoop env events [] [] = (loopOps, b, Inr G)"
    and o: "ops = loopOps @ flushGroups env G" and inv: "groupsInv G"
    and p: "list_all (\<lambda>x. isPrepare x \<or> isLog x) loopOps"
  from ok o have "\<not> handleErrorLogged loopOps" by (auto simp: handleErrorLogged_def)
  from revLoop_held [OF l this, of seg] have h: "held seg G = acquired seg loopOps"
    by (simp add: held_def)
  have "groupsInv []" by (simp add: groupsInv_def)
  from revLoop_docs_nonempty [OF l this] have "list_all (\<lambda>(gn, eg). eg_docs eg \<noteq> []) G"
    by simp
  then have "list_all (\<lambda>(gn, eg). eg_docs eg \<noteq> []) (mapRange env G)"
    using perm by (metis list_all_iff set_mset_mset)
  then have "released seg (flushGroups env G) = held seg (mapRange env G)"
    unfolding flushGroups_def by (rule released_flush_list)
  also have "\<dots> = held seg G" using perm by (rule held_mset)
  finally have f: "released seg (flushGroups env G) = held seg G" .
  from o h f released_loop [OF p, of seg] acquired_flush_list [of seg env "mapRange env G"]
  show ?thesis
    by (simp add: released_append acquired_append flushGroups_def)
qed

text \<open>
  Claim C1 fails on the code as soon as an event is refused. The first event acquires
  segment 100; the second event has no tag family, so \<open>handle\<close> returns an error and
  \<open>Rev\<close> replaces the accumulator by an empty one without releasing what it held: the
  call returns with one acquisition of the segment and no \<open>DecRef\<close>. A single refused
  event is enough, since \<open>handle\<close> acquires the segment before \<open>processElements\<close>
  refuses the event.
\<close>

theorem Rev_drops_segment_reference:
  "Rev env0 (DataList [EvWriteRequest evOK, EvWriteRequest evNoFamily]) =
     ([OpLoadTSDB ''g'', OpCreateSegmentIfNotExist 1 1000000 (Some 100),
       OpCreateTSTableIfNotExist 100 3 (Some 1003), OpLoadTSDB ''g'',
       OpLog LevelError ''cannot handle write event''],
      Inr (Some []))
   \<and> acquired 100 (fst (Rev env0 (DataList [EvWriteRequest evOK, EvWriteRequest evNoFamily]))) = 1
   \<and> released 100 (fst (Rev env0 (DataList [EvWriteRequest evOK, EvWriteRequest evNoFamily]))) = 0
   \<and> acquired 100 (fst (Rev env0 (DataList [EvWriteRequest evNoFamily]))) = 1
   \<and> released 100 (fst (Rev env0 (DataList [EvWriteRequest evNoFamily]))) = 0"
  by (simp add: write_path_defs concrete_defs acquired_def released_def)

subsection \<open>Stored tag values\<close>

lemma encodeTagValue_Inr:
  "encodeTagValue i2b n ty v = Inr tv \<Longrightarrow>
   tv_tag tv = n \<and> valueType tv = valueTypeOf ty \<and> indexed tv = False"
  by (cases ty) (auto simp: generateTagValue_def Let_def split: option.splits)

lemma encodeTagValue_Null:
  "encodeTagValue i2b n ty TV_Null = Inr tv \<Longrightarrow>
   tv = \<lparr>tv_tag = n, valueType = valueTypeOf ty, tv_value = None, valueArr = None,
         indexed = False\<rparr>"
  by (cases ty) (auto simp: generateTagValue_def Let_def)

lemma indexTag_sentinel: "indexTag tfr sid t None flds = Inr (flds', idx) \<Longrightarrow> \<not> idx"
  by (auto simp: indexTag_def split: option.splits)

lemma slotOK_step:
  assumes i: "indexTag tfr sid t (tagValueAt tf j) flds = Inr (flds', idx)"
    and e: "encodeTagValue i2b (ts_name t) (ts_type t) (derefTagValue (tagValueAt tf j)) = Inr tv"
  shows "slotOK i2b tf (j, t) (tv\<lparr>indexed := idx\<rparr>)"
proof -
  note p = encodeTagValue_Inr [OF e]
  from p have unch: "tv\<lparr>indexed := False\<rparr> = tv" by (cases tv) simp
  have n: "tv\<lparr>indexed := idx\<rparr> =
             \<lparr>tv_tag = ts_name t, valueType = valueTypeOf (ts_type t), tv_value = None,
              valueArr = None, indexed = False\<rparr>"
    if "tagValueAt tf j = None"
  proof -
    from that i have "\<not> idx" by (auto dest: indexTag_sentinel)
    moreover from that e have "tv = \<lparr>tv_tag = ts_name t, valueType = valueTypeOf (ts_type t),
        tv_value = None, valueArr = None, indexed = False\<rparr>"
      by (auto simp: derefTagValue_def NullTagValue_def dest: encodeTagValue_Null)
    ultimately show ?thesis by simp
  qed
  from e p unch n show ?thesis
    by (simp add: slotOK_def)
qed

lemma zip_upt_Cons:
  "zip [j..<j + length (x # xs)] (x # xs) = (j, x) # zip [Suc j..<Suc j + length xs] xs"
proof -
  have "[j..<j + length (x # xs)] = j # [Suc j..<j + length (x # xs)]"
    by (rule upt_conv_Cons) simp
  then show ?thesis by (simp del: upt_Suc)
qed

lemma processTags_slots:
  "processTags i2b tfr es sid tf j specs flds vals = Inr (flds', vals') \<Longrightarrow>
   \<exists>new. vals' = vals @ new \<and>
     list_all2 (slotOK i2b tf)
       (filter (\<lambda>(k, t). isStored es t) (zip [j..<j + length specs] specs)) new"
proof (induction specs arbitrary: j flds vals)
  case Nil
  then show ?case by simp
next
  case (Cons t rest)
  from Cons.prems obtain flds1 idx where
    i: "indexTag tfr sid t (tagValueAt tf j) flds = Inr (flds1, idx)"
    by (auto simp: Let_def split: sum.splits)
  show ?case
  proof (cases "isStored es t")
    case False
    with Cons.prems i have "processTags i2b tfr es sid tf (Suc j) rest flds1 vals = Inr (flds', vals')"
      by (auto simp: Let_def isStored_def)
    from Cons.IH [OF this] False show ?thesis
      unfolding zip_upt_Cons by simp
  next
    case True
    with Cons.prems i obtain tv where
      e: "encodeTagValue i2b (ts_name t) (ts_type t) (derefTagValue (tagValueAt tf j)) = Inr tv"
      and r: "processTags i2b tfr es sid tf (Suc j) rest flds1 (vals @ [tv\<lparr>indexed := idx\<rparr>])
                = Inr (flds', vals')"
      by (auto simp: Let_def isStored_def split: sum.splits)
    from Cons.IH [OF r] obtain new where
      n: "vals' = (vals @ [tv\<lparr>indexed := idx\<rparr>]) @ new"
         "list_all2 (slotOK i2b tf)
            (filter (\<lambda>(k, t). isStored es t) (zip [Suc j..<Suc j + length rest] rest)) new"
      by blast
    from slotOK_step [OF i e] n True show ?thesis
      unfolding zip_upt_Cons by simp
  qed
qed

lemma length_filter_zip_upt:
  "length (filter (\<lambda>(k, t). P t) (zip [j..<j + length xs] xs)) = length (filter P xs)"
proof (induction xs arbitrary: j)
  case Nil
  then show ?case by simp
next
  case (Cons x xs)
  from Cons [of "Suc j"] show ?case
    unfolding zip_upt_Cons by simp
qed

lemma length_storedSlots:
  "length (storedSlots es tags) =
     length tags - length (filter (\<lambda>t. indexedOnly t \<or> ts_name t \<in> es) tags)"
proof -
  have "length (storedSlots es tags) = length (filter (isStored es) tags)"
    unfolding storedSlots_def
    using length_filter_zip_upt [of "isStored es" 0 tags] by simp
  moreover have "length (filter (isStored es) tags)
                   + length (filter (\<lambda>t. \<not> isStored es t) tags) = length tags"
    by (rule sum_length_filter_compl)
  moreover have "(\<lambda>t. \<not> isStored es t) = (\<lambda>t. indexedOnly t \<or> ts_name t \<in> es)"
    by (auto simp: isStored_def)
  ultimately show ?thesis by simp
qed

lemma processFamilies_families:
  "processFamilies i2b loc sid reqFamilies i specs flds tfs = Inr (flds', tfs') \<Longrightarrow>
   \<exists>new. tfs' = tfs @ new \<and>
     list_all2 (familyOK i2b (EntitySet loc) reqFamilies)
       (filter (\<lambda>(k, spec). storedSlots (EntitySet loc) (tfs_tags spec) \<noteq> [])
          (zip [i..<i + length specs] specs)) new"
proof (induction specs arbitrary: i flds tfs)
  case Nil
  then show ?case by simp
next
  case (Cons spec rest)
  let ?es = "EntitySet loc"
  let ?tf = "\<lambda>vals. \<lparr>tvs_tag = tfs_name spec, tvs_values = vals\<rparr>"
  from Cons.prems obtain flds1 vals where
    t: "processTags i2b (TagFamilyTRule loc ! i) ?es sid (tagFamilyAt reqFamilies i) 0
          (tfs_tags spec) flds [] = Inr (flds1, vals)"
    and r: "processFamilies i2b loc sid reqFamilies (Suc i) rest flds1
              (if length vals > 0 then tfs @ [?tf vals] else tfs) = Inr (flds', tfs')"
    by (auto simp: Let_def split: sum.splits if_splits)
  from processTags_slots [OF t]
  have s: "list_all2 (slotOK i2b (tagFamilyAt reqFamilies i)) (storedSlots ?es (tfs_tags spec)) vals"
    by (simp add: storedSlots_def)
  then have len: "length vals = length (storedSlots ?es (tfs_tags spec))"
    by (simp add: list_all2_lengthD)
  from Cons.IH [OF r] obtain new where
    n: "tfs' = (if length vals > 0 then tfs @ [?tf vals] else tfs) @ new"
       "list_all2 (familyOK i2b ?es reqFamilies)
          (filter (\<lambda>(k, spec). storedSlots ?es (tfs_tags spec) \<noteq> [])
             (zip [Suc i..<Suc i + length rest] rest)) new"
    by blast
  show ?case
  proof (cases "length vals > 0")
    case True
    with len have ne: "storedSlots ?es (tfs_tags spec) \<noteq> []" by auto
    have "familyOK i2b ?es reqFamilies (i, spec) (?tf vals)"
      using s len by (simp add: familyOK_def length_storedSlots)
    with n True ne show ?thesis
      unfolding zip_upt_Cons by simp
  next
    case False
    with len have "storedSlots ?es (tfs_tags spec) = []" by auto
    with n False show ?thesis
      unfolding zip_upt_Cons by simp
  qed
qed

text \<open>
  Claim C9. When \<open>processElements\<close> accepts an event, the list of tag families it
  appends for the element holds one materialised family for each family of the schema that
  has a stored tag spec (one neither in the entity set nor index-only), in the schema's
  order and under the family's name; and a materialised family holds exactly one encoded
  value for each of its stored tag specs, in order, whether or not the request gives the
  family or the tag: where it gives none, the value is the null value of the spec's value
  type, with nil bytes. So the value count of a materialised family is the family's tag
  count less its entity and index-only tags.
\<close>

theorem processElements_stored_values:
  assumes "processElements env et eg writeEvent req el b ts = (b', Inr (et', eg'))"
    and "wr_metadata req = Some md" and "loadStream env md = Some stm"
  shows "\<exists>tfs. tagFamilies (et_elements et') = tagFamilies (et_elements et) @ [tfs]
           \<and> list_all2
               (familyOK (Int64ToBytes env) (EntitySet (indexRuleLocators stm))
                  (el_tagFamilies el))
               (storedFamilies (EntitySet (indexRuleLocators stm)) (schemaTagFamilies stm))
               tfs"
  using assms(1)
proof (rule processElements_success)
  fix md' stm' seriesID seriesBuffer flds tfs
  assume "wr_metadata req = Some md'" and "loadStream env md' = Some stm'"
    and f: "processFamilies (Int64ToBytes env) (indexRuleLocators stm') seriesID
              (el_tagFamilies el) 0 (schemaTagFamilies stm') [] [] = Inr (flds, tfs)"
    and et': "et' = et\<lparr>et_elements :=
               \<lparr>timestamps = timestamps (et_elements et) @ [ts],
                elementIDs = elementIDs (et_elements et) @ [HashStr env b'],
                seriesIDs = seriesIDs (et_elements et) @ [seriesID],
                tagFamilies = tagFamilies (et_elements et) @ [tfs]\<rparr>,
             et_docs := et_docs et @
               [\<lparr>DocID = HashStr env b', Fields = flds, doc_Timestamp = ts,
                 doc_EntityValues = []\<rparr>]\<rparr>"
  with assms(2,3) have same: "stm' = stm" by simp
  from processFamilies_families [OF f] same
  have "list_all2
          (familyOK (Int64ToBytes env) (EntitySet (indexRuleLocators stm)) (el_tagFamilies el))
          (storedFamilies (EntitySet (indexRuleLocators stm)) (schemaTagFamilies stm)) tfs"
    by (simp add: storedFamilies_def)
  with et' show ?thesis by simp
qed

theorem processElements_stored_values_witness:
  "\<exists>b' et' eg' tfs.
     processElements env0 exTable exGroup evOK reqOK elOK ''stale'' 1000000 = (b', Inr (et', eg'))
     \<and> wr_metadata reqOK = Some mdSvc \<and> loadStream env0 mdSvc = Some stream0
     \<and> tagFamilies (et_elements et') = [tfs]
     \<and> list_all2 (familyOK (Int64ToBytes env0) {''svc''} (el_tagFamilies elOK))
          (storedFamilies {''svc''} (schemaTagFamilies stream0)) tfs
     \<and> map (\<lambda>tf. (tvs_tag tf, length (tvs_values tf))) tfs = [(''searchable'', 2), (''data'', 1)]"
proof -
  have "\<exists>b' et' eg'.
          processElements env0 exTable exGroup evOK reqOK elOK ''stale'' 1000000
            = (b', Inr (et', eg'))"
    by (simp add: write_path_defs concrete_defs)
  then obtain b' et' eg' where
    h: "processElements env0 exTable exGroup evOK reqOK elOK ''stale'' 1000000
          = (b', Inr (et', eg'))"
    by blast
  have m: "wr_metadata reqOK = Some mdSvc" by (simp add: reqOK_def)
  have l: "loadStream env0 mdSvc = Some stream0" by (simp add: env0_def mdSvc_def)
  have es: "EntitySet (indexRuleLocators stream0) = {''svc''}" by (simp add: stream0_def)
  from processElements_stored_values [OF h m l] obtain tfs where
    t: "tagFamilies (et_elements et') = tagFamilies (et_elements exTable) @ [tfs]"
       "list_all2 (familyOK (Int64ToBytes env0) {''svc''} (el_tagFamilies elOK))
          (storedFamilies {''svc''} (schemaTagFamilies stream0)) tfs"
    unfolding es by blast
  have sf: "storedFamilies {''svc''} (schemaTagFamilies stream0) =
              [(0, schemaTagFamilies stream0 ! 0), (1, schemaTagFamilies stream0 ! 1)]"
    by (simp add: storedFamilies_def storedSlots_def isStored_def stream0_def)
  from t(2) have "map (\<lambda>tf. (tvs_tag tf, length (tvs_values tf))) tfs
                    = [(''searchable'', 2), (''data'', 1)]"
    unfolding sf
    by (auto simp: list_all2_Cons1 familyOK_def stream0_def)
  with h m l t show ?thesis
    by (auto simp: exTable_def emptyElements_def)
qed

end
